theory Spec2Isabelle
  imports Main
begin


section \<open>Python values used by the agent\<close>

text \<open>
  The exceptions that can leave the agent's methods: the ones \<open>requests.get\<close> raises on a
  transport failure, the one \<open>response.json()\<close> raises on a body that is not JSON, and the
  ones Python raises when a decoded body has not the shape the code indexes into.
\<close>

datatype exn = RequestException | JSONDecodeError | TypeError | AttributeError | KeyError

text \<open>
  A decoded JSON body. An object is the list of its items (keys distinct, as in a Python
  dict); a number with a fraction or exponent is kept as its literal, the agent never
  computes with it.
\<close>

datatype json =
    JNull
  | JBool bool
  | JInt int
  | JFloat string
  | JStr string
  | JArr "json list"
  | JObj "(string \<times> json) list"

text \<open>Strings are \<open>char list\<close>; the line feed of the source's \<open>\n\<close>.\<close>

definition nl :: char where
  "nl = CHR 0x0A"

subsection \<open>\<open>str(int)\<close>\<close>

definition digit_char :: "nat \<Rightarrow> char" where
  "digit_char d = ''0123456789'' ! d"

function str_nat :: "nat \<Rightarrow> string" where
  "str_nat n = (if n < 10 then [digit_char n] else str_nat (n div 10) @ [digit_char (n mod 10)])"
  by pat_completeness auto
termination
  by (relation "measure id") auto

declare str_nat.simps [simp del]

definition str_int :: "int \<Rightarrow> string" where
  "str_int i = (if i < 0 then CHR ''-'' # str_nat (nat (- i)) else str_nat (nat i))"

subsection \<open>\<open>str.lower\<close>, \<open>in\<close> on strings, \<open>str.strip\<close>, \<open>str.join\<close>\<close>

text \<open>
  \<open>str.lower\<close> on the ASCII letters; every other character is left as it is.
\<close>

definition lower_char :: "char \<Rightarrow> char" where
  "lower_char c =
     (case map_of (zip ''ABCDEFGHIJKLMNOPQRSTUVWXYZ'' ''abcdefghijklmnopqrstuvwxyz'') c of
        Some l \<Rightarrow> l
      | None \<Rightarrow> c)"

definition lower :: "string \<Rightarrow> string" where
  "lower s = map lower_char s"

text \<open>\<open>k in s\<close> for two strings: \<open>k\<close> starts at some position of \<open>s\<close>.\<close>

definition starts_with :: "string \<Rightarrow> string \<Rightarrow> bool" where
  "starts_with s k = (take (length k) s = k)"

fun str_in :: "string \<Rightarrow> string \<Rightarrow> bool" where
  "str_in k [] = (k = [])"
| "str_in k (c # cs) = (starts_with (c # cs) k \<or> str_in k cs)"

text \<open>\<open>str.strip()\<close>: the ASCII white space of Python, removed at both ends.\<close>

definition is_space :: "char \<Rightarrow> bool" where
  "is_space c = (c \<in> set [CHR 0x09, CHR 0x0A, CHR 0x0B, CHR 0x0C, CHR 0x0D,
                           CHR 0x1C, CHR 0x1D, CHR 0x1E, CHR 0x1F, CHR 0x20])"

definition strip :: "string \<Rightarrow> string" where
  "strip s = rev (dropWhile is_space (rev (dropWhile is_space s)))"

fun join :: "string \<Rightarrow> string list \<Rightarrow> string" where
  "join sep [] = []"
| "join sep [x] = x"
| "join sep (x # y # ys) = x @ sep @ join sep (y # ys)"

subsection \<open>Operations on decoded JSON\<close>

text \<open>\<open>k in x\<close>: a key of a dict, an element of a list, a substring of a string;
  \<open>None\<close>, a bool and a number are not iterable.\<close>

fun py_contains :: "string \<Rightarrow> json \<Rightarrow> exn + bool" where
  "py_contains k (JObj kvs) = Inr (k \<in> set (map fst kvs))"
| "py_contains k (JArr xs) = Inr (JStr k \<in> set xs)"
| "py_contains k (JStr s) = Inr (str_in k s)"
| "py_contains k _ = Inl TypeError"

text \<open>\<open>x[k]\<close> with a string key.\<close>

fun py_getitem :: "json \<Rightarrow> string \<Rightarrow> exn + json" where
  "py_getitem (JObj kvs) k = (case map_of kvs k of Some v \<Rightarrow> Inr v | None \<Rightarrow> Inl KeyError)"
| "py_getitem _ k = Inl TypeError"

text \<open>\<open>x.get(k, d)\<close>: only a dict has the method. \<open>x.get(k)\<close> is \<open>x.get(k, None)\<close>.\<close>

fun py_get_default :: "json \<Rightarrow> string \<Rightarrow> json \<Rightarrow> exn + json" where
  "py_get_default (JObj kvs) k d = Inr (case map_of kvs k of Some v \<Rightarrow> v | None \<Rightarrow> d)"
| "py_get_default _ k d = Inl AttributeError"

definition py_get :: "json \<Rightarrow> string \<Rightarrow> exn + json" where
  "py_get x k = py_get_default x k JNull"

text \<open>What \<open>for res in x\<close> runs over: the elements of a list, the keys of a dict, the
  characters of a string.\<close>

fun py_iter :: "json \<Rightarrow> exn + json list" where
  "py_iter (JArr xs) = Inr xs"
| "py_iter (JObj kvs) = Inr (map (\<lambda>kv. JStr (fst kv)) kvs)"
| "py_iter (JStr s) = Inr (map (\<lambda>c. JStr [c]) s)"
| "py_iter _ = Inl TypeError"

text \<open>A list comprehension whose element expression may raise: the first exception ends it.\<close>

fun map_exn :: "('a \<Rightarrow> exn + 'b) \<Rightarrow> 'a list \<Rightarrow> exn + 'b list" where
  "map_exn f [] = Inr []"
| "map_exn f (x # xs) =
     (case f x of
        Inl e \<Rightarrow> Inl e
      | Inr y \<Rightarrow> (case map_exn f xs of Inl e \<Rightarrow> Inl e | Inr ys \<Rightarrow> Inr (y # ys)))"

text \<open>\<open>str(x)\<close> inside an f-string. The text of a float, a list or a dict is Python's
  \<open>repr\<close>, taken as a parameter.\<close>

fun pystr :: "(json \<Rightarrow> string) \<Rightarrow> json \<Rightarrow> string" where
  "pystr r (JStr s) = s"
| "pystr r JNull = ''None''"
| "pystr r (JBool b) = (if b then ''True'' else ''False'')"
| "pystr r (JInt i) = str_int i"
| "pystr r x = r x"

section \<open>The outside world\<close>

datatype pval = PStr string | PInt int | PBool bool

record request =
  url :: string
  params :: "(string \<times> pval) list"

text \<open>
  A \<open>requests.Response\<close>: its \<open>status_code\<close>, what \<open>json()\<close> returns (\<open>None\<close> when it raises)
  and the entries \<open>feedparser.parse\<close> finds in its \<open>text\<close>.
\<close>

record feed_entry =
  e_title :: "string option"
  e_summary :: "string option"
  e_published :: "string option"
  e_link :: "string option"

record response =
  status_code :: int
  json_body :: "json option"
  feed_entries :: "feed_entry list"

record datetime =
  dt_year :: int
  dt_month :: int
  dt_day :: int
  dt_hour :: int
  dt_minute :: int
  dt_second :: int

text \<open>
  Everything the agent reads from outside: the answer to the \<open>k\<close>-th HTTP request of the
  process (an exception or a response), the year of \<open>datetime.now()\<close>, the library parser
  \<open>strptime\<close> for the format \<open>%Y-%m-%dT%H:%M:%SZ\<close> (the message of the exception it raises,
  or the date), and \<open>repr\<close>.
\<close>

record world =
  http_get :: "nat \<Rightarrow> request \<Rightarrow> exn + response"
  now_year :: int
  strptime :: "string \<Rightarrow> string + datetime"
  repr :: "json \<Rightarrow> string"

section \<open>The agent's data\<close>

record paper =
  title :: string
  summary :: string
  year :: int
  published :: string
  link :: string
  parsed_date :: datetime

text \<open>The composite result is a Python dict with string keys.\<close>

datatype pyval = PyStr string | PyList "paper list"

type_synonym composite = "(string \<times> pyval) list"

datatype stored = StoredComposite composite | StoredUrls "json list"

text \<open>
  The calls the agent makes on its collaborators, in order: \<open>memory.log_event\<close>,
  \<open>memory.store_data\<close>, \<open>requests.get\<close> and \<open>time.sleep\<close>.
\<close>

datatype event =
    LogEvent string
  | StoreData string stored
  | HttpGet request
  | Sleep int

text \<open>
  The fields of \<open>APISelectionAgent\<close>, with the record of its calls (\<open>trace\<close>, oldest first)
  and the number of HTTP requests issued so far.
\<close>

record agent =
  max_retries :: int
  google_api_key :: string
  google_cx :: string
  google_endpoint :: string
  nasa_api_key :: string
  nasa_endpoint :: string
  cache :: "string \<rightharpoonup> composite"
  trace :: "event list"
  requests_made :: nat

definition getenv :: "(string \<rightharpoonup> string) \<Rightarrow> string \<Rightarrow> string \<Rightarrow> string" where
  "getenv env k d = (case env k of Some v \<Rightarrow> v | None \<Rightarrow> d)"

text \<open>\<open>__init__(self, memory, max_retries=2)\<close>: the second argument is \<open>None\<close> when the
  caller leaves it out.\<close>

definition init :: "(string \<rightharpoonup> string) \<Rightarrow> int option \<Rightarrow> agent" where
  "init env mr =
     \<lparr> max_retries = (case mr of Some n \<Rightarrow> n | None \<Rightarrow> 2),
       google_api_key = getenv env ''GOOGLE_API_KEY'' ''YOUR_GOOGLE_API_KEY'',
       google_cx = getenv env ''GOOGLE_CX'' ''YOUR_GOOGLE_CX'',
       google_endpoint = ''https://www.googleapis.com/customsearch/v1'',
       nasa_api_key = getenv env ''NASA_API_KEY'' ''YOUR_NASA_API_KEY'',
       nasa_endpoint = ''https://api.nasa.gov/planetary/apod'',
       cache = Map.empty,
       trace = [],
       requests_made = 0 \<rparr>"

text \<open>
  Modelled from the spec: the class \<open>MemoryManager\<close> (module \<open>memory_manager\<close>) is imported
  by the source and is not part of it. The specification describes it as a sink that
  accepts free-text log lines and stores named artifacts, and that the agent never reads
  back. \<open>log_event\<close> and \<open>store_data\<close> therefore record the call and return.
\<close>

definition log_event :: "string \<Rightarrow> agent \<Rightarrow> agent" where
  "log_event msg s = s\<lparr>trace := trace s @ [LogEvent msg]\<rparr>"

definition store_data :: "string \<Rightarrow> stored \<Rightarrow> agent \<Rightarrow> agent" where
  "store_data k v s = s\<lparr>trace := trace s @ [StoreData k v]\<rparr>"

text \<open>\<open>time.sleep(n)\<close> and \<open>requests.get(url, params=params)\<close>.\<close>

definition sleep :: "int \<Rightarrow> agent \<Rightarrow> agent" where
  "sleep n s = s\<lparr>trace := trace s @ [Sleep n]\<rparr>"

definition requests_get :: "world \<Rightarrow> request \<Rightarrow> agent \<Rightarrow> (exn + response) \<times> agent" where
  "requests_get w req s =
     (http_get w (requests_made s) req,
      s\<lparr>trace := trace s @ [HttpGet req], requests_made := Suc (requests_made s)\<rparr>)"

text \<open>\<open>range(self.max_retries)\<close>: empty when the count is zero or negative.\<close>

definition py_range :: "int \<Rightarrow> nat list" where
  "py_range n = [0 ..< nat n]"

definition tag :: string where
  "tag = ''[APISelectionAgent] ''"

text \<open>The log line of a failed attempt, shared in shape by the three adapters.\<close>

definition attempt_failed :: "string \<Rightarrow> nat \<Rightarrow> int \<Rightarrow> string" where
  "attempt_failed api attempt status =
     tag @ api @ '' API attempt '' @ str_int (int attempt + 1) @ '' failed with status '' @ str_int status"

section \<open>The web-search adapter\<close>

definition google_request :: "string \<Rightarrow> agent \<Rightarrow> request" where
  "google_request query s =
     \<lparr> url = google_endpoint s,
       params = [(''q'', PStr query), (''key'', PStr (google_api_key s)),
                 (''cx'', PStr (google_cx s)), (''num'', PInt 5)] \<rparr>"

text \<open>One block of the result text, for one item.\<close>

definition google_block :: "world \<Rightarrow> json \<Rightarrow> exn + string" where
  "google_block w res =
     (case py_get res ''title'' of Inl e \<Rightarrow> Inl e | Inr t \<Rightarrow>
      case py_get res ''link'' of Inl e \<Rightarrow> Inl e | Inr l \<Rightarrow>
      case py_get res ''snippet'' of Inl e \<Rightarrow> Inl e | Inr sn \<Rightarrow>
        Inr (''Title: '' @ pystr (repr w) t @ [nl] @ ''Link: '' @ pystr (repr w) l @ [nl]
             @ ''Snippet: '' @ pystr (repr w) sn @ [nl]))"

text \<open>The branch \<open>response.status_code == 200\<close> (lines 57 to 68).\<close>

definition google_ok :: "world \<Rightarrow> response \<Rightarrow> agent \<Rightarrow> (exn + string) \<times> agent" where
  "google_ok w response s =
     (case json_body response of
        None \<Rightarrow> (Inl JSONDecodeError, s)
      | Some search_results \<Rightarrow>
          (case py_contains ''items'' search_results of
             Inl e \<Rightarrow> (Inl e, s)
           | Inr False \<Rightarrow> (Inr ''No web results found.'', s)
           | Inr True \<Rightarrow>
               (case py_getitem search_results ''items'' of
                  Inl e \<Rightarrow> (Inl e, s)
                | Inr top_results \<Rightarrow>
                    (case py_iter top_results of
                       Inl e \<Rightarrow> (Inl e, s)
                     | Inr rs \<Rightarrow>
                         (case map_exn (\<lambda>res. py_get res ''link'') rs of
                            Inl e \<Rightarrow> (Inl e, s)
                          | Inr urls \<Rightarrow>
                              (let s1 = store_data ''external_urls'' (StoredUrls urls) s in
                               case map_exn (google_block w) rs of
                                 Inl e \<Rightarrow> (Inl e, s1)
                               | Inr blocks \<Rightarrow> (Inr (join [nl] blocks), s1)))))))"

text \<open>The loop \<open>for attempt in range(self.max_retries)\<close>; \<open>Inr None\<close> when it runs to its
  end without a \<open>return\<close>.\<close>

fun google_loop :: "world \<Rightarrow> request \<Rightarrow> nat list \<Rightarrow> agent \<Rightarrow> (exn + string option) \<times> agent" where
  "google_loop w req [] s = (Inr None, s)"
| "google_loop w req (attempt # rest) s =
     (case requests_get w req s of
        (Inl e, s1) \<Rightarrow> (Inl e, s1)
      | (Inr response, s1) \<Rightarrow>
          if status_code response = 200 then
            (case google_ok w response s1 of
               (Inl e, s2) \<Rightarrow> (Inl e, s2)
             | (Inr results, s2) \<Rightarrow> (Inr (Some results), s2))
          else
            google_loop w req rest
              (sleep 1 (log_event (attempt_failed ''Google'' attempt (status_code response)) s1)))"

definition google_sentinel :: "int \<Rightarrow> string" where
  "google_sentinel n = ''Error: Google Search API request failed after '' @ str_int n @ '' attempts.''"

definition fetch_from_google :: "world \<Rightarrow> string \<Rightarrow> agent \<Rightarrow> (exn + string) \<times> agent" where
  "fetch_from_google w query s0 =
     (let s = log_event (tag @ ''Querying Google Custom Search API.'') s0 in
      case google_loop w (google_request query s) (py_range (max_retries s)) s of
        (Inl e, s1) \<Rightarrow> (Inl e, s1)
      | (Inr (Some results), s1) \<Rightarrow> (Inr results, s1)
      | (Inr None, s1) \<Rightarrow> (Inr (google_sentinel (max_retries s1)), s1))"

section \<open>The astronomy adapter\<close>

definition nasa_request :: "string \<Rightarrow> agent \<Rightarrow> request" where
  "nasa_request query s =
     \<lparr> url = nasa_endpoint s,
       params = [(''api_key'', PStr (nasa_api_key s)), (''hd'', PBool True)] \<rparr>"

text \<open>The branch \<open>response.status_code == 200\<close> (lines 83 to 87).\<close>

definition nasa_ok :: "world \<Rightarrow> response \<Rightarrow> exn + string" where
  "nasa_ok w response =
     (case json_body response of
        None \<Rightarrow> Inl JSONDecodeError
      | Some data \<Rightarrow>
          (case py_get_default data ''title'' (JStr ''No title provided.'') of
             Inl e \<Rightarrow> Inl e
           | Inr t \<Rightarrow>
               (case py_get_default data ''explanation'' (JStr ''No explanation available.'') of
                  Inl e \<Rightarrow> Inl e
                | Inr explanation \<Rightarrow>
                    Inr (''NASA APOD'' @ [nl] @ ''Title: '' @ pystr (repr w) t @ [nl]
                         @ ''Explanation: '' @ pystr (repr w) explanation @ [nl]))))"

fun nasa_loop :: "world \<Rightarrow> request \<Rightarrow> nat list \<Rightarrow> agent \<Rightarrow> (exn + string option) \<times> agent" where
  "nasa_loop w req [] s = (Inr None, s)"
| "nasa_loop w req (attempt # rest) s =
     (case requests_get w req s of
        (Inl e, s1) \<Rightarrow> (Inl e, s1)
      | (Inr response, s1) \<Rightarrow>
          if status_code response = 200 then
            (case nasa_ok w response of
               Inl e \<Rightarrow> (Inl e, s1)
             | Inr result \<Rightarrow> (Inr (Some result), s1))
          else
            nasa_loop w req rest
              (sleep 1 (log_event (attempt_failed ''NASA'' attempt (status_code response)) s1)))"

definition nasa_sentinel :: "int \<Rightarrow> string" where
  "nasa_sentinel n = ''Error: NASA API request failed after '' @ str_int n @ '' attempts.''"

definition fetch_from_nasa :: "world \<Rightarrow> string \<Rightarrow> agent \<Rightarrow> (exn + string) \<times> agent" where
  "fetch_from_nasa w query s0 =
     (let s = log_event (tag @ ''Querying NASA API (APOD).'') s0 in
      case nasa_loop w (nasa_request query s) (py_range (max_retries s)) s of
        (Inl e, s1) \<Rightarrow> (Inl e, s1)
      | (Inr (Some result), s1) \<Rightarrow> (Inr result, s1)
      | (Inr None, s1) \<Rightarrow> (Inr (nasa_sentinel (max_retries s1)), s1))"

section \<open>The research-feed adapter\<close>

definition arxiv_request :: "string \<Rightarrow> request" where
  "arxiv_request query =
     \<lparr> url = ''http://export.arxiv.org/api/query'',
       params = [(''search_query'', PStr (''all:'' @ query)), (''start'', PInt 0),
                 (''max_results'', PInt 10), (''sortBy'', PStr ''submittedDate''),
                 (''sortOrder'', PStr ''descending'')] \<rparr>"

text \<open>The retry loop with \<open>break\<close> and \<open>else\<close> (lines 106 to 115): \<open>Inr (Some response)\<close>
  after the \<open>break\<close>, \<open>Inr None\<close> when the loop runs to its end and the \<open>else\<close> is taken.\<close>

fun arxiv_loop :: "world \<Rightarrow> request \<Rightarrow> nat list \<Rightarrow> agent \<Rightarrow> (exn + response option) \<times> agent" where
  "arxiv_loop w req [] s = (Inr None, s)"
| "arxiv_loop w req (attempt # rest) s =
     (case requests_get w req s of
        (Inl e, s1) \<Rightarrow> (Inl e, s1)
      | (Inr response, s1) \<Rightarrow>
          if status_code response = 200 then (Inr (Some response), s1)
          else
            arxiv_loop w req rest
              (sleep 1 (log_event (attempt_failed ''arXiv'' attempt (status_code response)) s1)))"

text \<open>\<open>time.gmtime(0)\<close>.\<close>

definition epoch :: datetime where
  "epoch = \<lparr> dt_year = 1970, dt_month = 1, dt_day = 1, dt_hour = 0, dt_minute = 0, dt_second = 0 \<rparr>"

definition opt_get :: "'a option \<Rightarrow> 'a \<Rightarrow> 'a" where
  "opt_get x d = (case x of Some v \<Rightarrow> v | None \<Rightarrow> d)"

text \<open>
  The dict \<open>pointer\<close> (lines 129 to 137). \<open>published_date\<close> is \<open>None\<close> or a datetime, which
  is always true in a condition; \<open>time.strptime\<close> runs the parser \<open>datetime.strptime\<close> ran
  on the same text, so it returns the same date and does not raise.
\<close>

definition pointer :: "feed_entry \<Rightarrow> string \<Rightarrow> datetime option \<Rightarrow> int \<Rightarrow> paper" where
  "pointer entry published_str published_date published_year =
     \<lparr> title = strip (opt_get (e_title entry) ''No Title''),
       summary = strip (opt_get (e_summary entry) ''No summary available.''),
       year = published_year,
       published = published_str,
       link = opt_get (e_link entry) [],
       parsed_date = (case published_date of Some d \<Rightarrow> d | None \<Rightarrow> epoch) \<rparr>"

definition parse_error_line :: "string \<Rightarrow> string \<Rightarrow> string" where
  "parse_error_line published_str e =
     tag @ ''Error parsing published date '' @ [CHR 0x27] @ published_str @ [CHR 0x27] @ '': '' @ e"

text \<open>The loop \<open>for entry in feed.entries\<close> (lines 119 to 138), with the list \<open>papers\<close>
  built so far.\<close>

fun arxiv_entries :: "world \<Rightarrow> int \<Rightarrow> feed_entry list \<Rightarrow> paper list \<Rightarrow> agent \<Rightarrow> paper list \<times> agent" where
  "arxiv_entries w threshold_year [] papers s = (papers, s)"
| "arxiv_entries w threshold_year (entry # rest) papers s =
     (let published_str = opt_get (e_published entry) [];
          (published_date, published_year, s1) =
            (case strptime w published_str of
               Inr d \<Rightarrow> (Some d, dt_year d, s)
             | Inl e \<Rightarrow> (None, 0, log_event (parse_error_line published_str e) s))
      in if published_year \<ge> threshold_year
         then arxiv_entries w threshold_year rest
                (papers @ [pointer entry published_str published_date published_year]) s1
         else arxiv_entries w threshold_year rest papers s1)"

definition fetch_from_arxiv :: "world \<Rightarrow> string \<Rightarrow> agent \<Rightarrow> (exn + paper list) \<times> agent" where
  "fetch_from_arxiv w query s0 =
     (let s = log_event (tag @ ''Querying arXiv API for research papers.'') s0;
          current_year = now_year w;
          threshold_year = current_year - 5
      in case arxiv_loop w (arxiv_request query) (py_range (max_retries s)) s of
           (Inl e, s1) \<Rightarrow> (Inl e, s1)
         | (Inr None, s1) \<Rightarrow>
             (Inr [], log_event (tag @ ''arXiv API request failed after retries'') s1)
         | (Inr (Some response), s1) \<Rightarrow>
             (case arxiv_entries w threshold_year (feed_entries response) [] s1 of
                (papers, s2) \<Rightarrow> (Inr papers, s2)))"

section \<open>The orchestrator\<close>

definition space_keywords :: "string list" where
  "space_keywords = [''nasa'', ''space'', ''astronomy'', ''planet'', ''cosmos'', ''asteroid'', ''galaxy'']"

text \<open>The condition of line 33.\<close>

definition is_space_query :: "string \<Rightarrow> bool" where
  "is_space_query query = list_ex (\<lambda>keyword. str_in keyword (lower query)) space_keywords"

definition fetch_external_data :: "world \<Rightarrow> string \<Rightarrow> agent \<Rightarrow> (exn + composite) \<times> agent" where
  "fetch_external_data w query s0 =
     (let s = log_event (tag @ ''Processing external data for: '' @ [CHR 0x27] @ query @ [CHR 0x27]) s0 in
      case cache s query of
        Some cached_data \<Rightarrow>
          (Inr cached_data,
           store_data ''external_data'' (StoredComposite cached_data)
             (log_event (tag @ ''Cache hit! Returning cached data.'') s))
      | None \<Rightarrow>
          (case (if is_space_query query then fetch_from_nasa w query s
                 else fetch_from_google w query s) of
             (Inl e, s1) \<Rightarrow> (Inl e, s1)
           | (Inr data, s1) \<Rightarrow>
               (case fetch_from_arxiv w query s1 of
                  (Inl e, s2) \<Rightarrow> (Inl e, s2)
                | (Inr research_data, s2) \<Rightarrow>
                    (let s3 = log_event (tag @ ''Found '' @ str_int (int (length research_data))
                                         @ '' advancements from arXiv.'') s2;
                         result = [(''summary'', PyStr data),
                                   (''recent_advancements'', PyList research_data)];
                         s4 = s3\<lparr>cache := (cache s3)(query \<mapsto> result)\<rparr>;
                         s5 = log_event (tag @ ''Cached the new result.'') s4;
                         s6 = store_data ''external_data'' (StoredComposite result) s5
                     in (Inr result, s6)))))"

section \<open>Notions used to state the properties\<close>

text \<open>An attempt fails when the request is answered, with a status other than 200.\<close>

definition failing :: "world \<Rightarrow> request \<Rightarrow> nat \<Rightarrow> bool" where
  "failing w req k = (case http_get w k req of Inr r \<Rightarrow> status_code r \<noteq> 200 | Inl e \<Rightarrow> False)"

definition status_at :: "world \<Rightarrow> request \<Rightarrow> nat \<Rightarrow> int" where
  "status_at w req k = (case http_get w k req of Inr r \<Rightarrow> status_code r | Inl e \<Rightarrow> 0)"

text \<open>
  The calls of \<open>n\<close> failed attempts in a row, numbered from \<open>a\<close>, the first of them being
  request number \<open>k\<close> of the process: the request, the log line, one unit of sleep.
\<close>

definition failed_attempts :: "world \<Rightarrow> request \<Rightarrow> string \<Rightarrow> nat \<Rightarrow> nat \<Rightarrow> nat \<Rightarrow> event list" where
  "failed_attempts w req api k a n =
     concat (map (\<lambda>i. [HttpGet req,
                        LogEvent (attempt_failed api (a + i) (status_at w req (k + i))),
                        Sleep 1]) [0 ..< n])"

text \<open>The agent after \<open>j\<close> failed attempts in a row, numbered from \<open>a\<close>.\<close>

definition after_failures :: "world \<Rightarrow> request \<Rightarrow> string \<Rightarrow> nat \<Rightarrow> nat \<Rightarrow> agent \<Rightarrow> agent" where
  "after_failures w req api a j s =
     s\<lparr>trace := trace s @ failed_attempts w req api (requests_made s) a j,
       requests_made := requests_made s + j\<rparr>"

text \<open>
  The feed filter in the words of the specification: an entry is recent when its
  \<open>published\<close> text parses and the year is at least the current year minus five; a retained
  entry becomes the record \<open>paper_of\<close>.
\<close>

definition published_text :: "feed_entry \<Rightarrow> string" where
  "published_text entry = opt_get (e_published entry) []"

definition recent :: "world \<Rightarrow> feed_entry \<Rightarrow> bool" where
  "recent w entry =
     (case strptime w (published_text entry) of
        Inr d \<Rightarrow> now_year w - 5 \<le> dt_year d
      | Inl msg \<Rightarrow> False)"

definition paper_of :: "world \<Rightarrow> feed_entry \<Rightarrow> paper" where
  "paper_of w entry =
     (case strptime w (published_text entry) of
        Inr d \<Rightarrow> pointer entry (published_text entry) (Some d) (dt_year d)
      | Inl msg \<Rightarrow> pointer entry (published_text entry) None 0)"

text \<open>
  Each adapter starts with a log line of its own; these three lines tell in the record of
  calls which adapters were invoked.
\<close>

definition google_line :: string where
  "google_line = tag @ ''Querying Google Custom Search API.''"

definition nasa_line :: string where
  "nasa_line = tag @ ''Querying NASA API (APOD).''"

definition arxiv_line :: string where
  "arxiv_line = tag @ ''Querying arXiv API for research papers.''"

definition is_query_line :: "event \<Rightarrow> bool" where
  "is_query_line e = (e = LogEvent google_line \<or> e = LogEvent nasa_line \<or> e = LogEvent arxiv_line)"

definition quiet :: "event list \<Rightarrow> bool" where
  "quiet evs = list_all (\<lambda>e. \<not> is_query_line e) evs"

text \<open>\<open>s'\<close> is \<open>s\<close> after the calls \<open>evs\<close>, with nothing else changed but the request count.\<close>

definition grows :: "agent \<Rightarrow> event list \<Rightarrow> agent \<Rightarrow> bool" where
  "grows s evs s' = (\<exists>n. s' = s\<lparr>trace := trace s @ evs, requests_made := requests_made s + n\<rparr>)"

text \<open>The first log line of \<open>fetch_external_data\<close>, and what the summary adapter it chooses
  on a cache miss returns.\<close>

definition processing_line :: "string \<Rightarrow> string" where
  "processing_line query = tag @ ''Processing external data for: '' @ [CHR 0x27] @ query @ [CHR 0x27]"

definition summary_fetch :: "world \<Rightarrow> string \<Rightarrow> agent \<Rightarrow> (exn + string) \<times> agent" where
  "summary_fetch w query s =
     (let s0 = log_event (processing_line query) s in
      if is_space_query query then fetch_from_nasa w query s0 else fetch_from_google w query s0)"

text \<open>The calls made between two states of the agent.\<close>

definition emitted :: "agent \<Rightarrow> agent \<Rightarrow> event list" where
  "emitted s s' = drop (length (trace s)) (trace s')"

text \<open>A world whose endpoints all answer 503.\<close>

definition down_world :: world where
  "down_world =
     \<lparr> http_get = (\<lambda>k req. Inr \<lparr> status_code = 503, json_body = None, feed_entries = [] \<rparr>),
       now_year = 2026,
       strptime = (\<lambda>t. Inl ''does not match format''),
       repr = (\<lambda>j. ''?'') \<rparr>"

text \<open>
  A world in the year 2026 whose feed endpoint answers 503 once and then 200 with four
  entries: one of 2026, one of 2021, one of 2020 and one whose date is not a date. The
  parser is the library's, restricted to the texts of this feed.
\<close>

definition sample_strptime :: "string \<Rightarrow> string + datetime" where
  "sample_strptime t =
     (case map_of
        [(''2026-03-01T10:00:00Z'',
            \<lparr> dt_year = 2026, dt_month = 3, dt_day = 1, dt_hour = 10, dt_minute = 0, dt_second = 0 \<rparr>),
         (''2021-06-15T08:30:00Z'',
            \<lparr> dt_year = 2021, dt_month = 6, dt_day = 15, dt_hour = 8, dt_minute = 30, dt_second = 0 \<rparr>),
         (''2020-12-31T23:59:59Z'',
            \<lparr> dt_year = 2020, dt_month = 12, dt_day = 31, dt_hour = 23, dt_minute = 59, dt_second = 59 \<rparr>)] t
      of Some d \<Rightarrow> Inr d
       | None \<Rightarrow> Inl ''time data does not match format'')"

definition sample_entry :: "string \<Rightarrow> string \<Rightarrow> feed_entry" where
  "sample_entry t p =
     \<lparr> e_title = Some t, e_summary = None, e_published = Some p, e_link = Some ''http://arxiv.org/abs/1'' \<rparr>"

definition sample_feed :: "feed_entry list" where
  "sample_feed =
     [sample_entry '' New '' ''2026-03-01T10:00:00Z'',
      sample_entry ''Edge'' ''2021-06-15T08:30:00Z'',
      sample_entry ''Old'' ''2020-12-31T23:59:59Z'',
      sample_entry ''Undated'' ''yesterday'']"

definition feed_world :: world where
  "feed_world =
     \<lparr> http_get = (\<lambda>k req. Inr \<lparr> status_code = (if k = 0 then 503 else 200), json_body = None,
                                 feed_entries = sample_feed \<rparr>),
       now_year = 2026,
       strptime = sample_strptime,
       repr = (\<lambda>j. ''?'') \<rparr>"

text \<open>The other log lines of \<open>fetch_external_data\<close>, and the dict it builds at line 40.\<close>

definition hit_line :: string where
  "hit_line = tag @ ''Cache hit! Returning cached data.''"

definition composite_of :: "string \<Rightarrow> paper list \<Rightarrow> composite" where
  "composite_of data research_data =
     [(''summary'', PyStr data), (''recent_advancements'', PyList research_data)]"

definition found_line :: "paper list \<Rightarrow> string" where
  "found_line research_data =
     tag @ ''Found '' @ str_int (int (length research_data)) @ '' advancements from arXiv.''"

text \<open>A world whose endpoints all answer 200 with a body that is not JSON.\<close>

definition garbled_world :: world where
  "garbled_world =
     \<lparr> http_get = (\<lambda>k req. Inr \<lparr> status_code = 200, json_body = None, feed_entries = [] \<rparr>),
       now_year = 2026,
       strptime = (\<lambda>t. Inl ''does not match format''),
       repr = (\<lambda>j. ''?'') \<rparr>"

text \<open>The states of an agent: as constructed, and after any call of \<open>fetch_external_data\<close>
  in any world.\<close>

inductive reachable :: "agent \<Rightarrow> bool" where
  start: "reachable (init env mr)"
| fetch: "reachable s \<Longrightarrow> reachable (snd (fetch_external_data w query s))"


text \<open>What \<open>fetch_external_data\<close> returns for a web query when every endpoint is down.\<close>

definition down_composite :: composite where
  "down_composite =
     [(''summary'', PyStr ''Error: Google Search API request failed after 2 attempts.''),
      (''recent_advancements'', PyList [])]"

text \<open>
  The shapes of a search response: \<open>has_items r xs\<close> when the body is a JSON object whose
  \<open>items\<close> entry is the array \<open>xs\<close> of objects, \<open>has_items_key\<close> when the body is an object
  with an \<open>items\<close> entry of any kind, \<open>well_formed_search\<close> when the body is an object whose
  \<open>items\<close> entry, if there is one, is an array of objects. \<open>link_of\<close> is the \<open>link\<close> field of
  an item, \<open>None\<close> when it has none.
\<close>

definition is_object :: "json \<Rightarrow> bool" where
  "is_object x = (case x of JObj kvs \<Rightarrow> True | _ \<Rightarrow> False)"

definition link_of :: "json \<Rightarrow> json" where
  "link_of res = (case res of JObj kvs \<Rightarrow> (case map_of kvs ''link'' of Some v \<Rightarrow> v | None \<Rightarrow> JNull)
                  | _ \<Rightarrow> JNull)"

definition has_items :: "response \<Rightarrow> json list \<Rightarrow> bool" where
  "has_items r xs =
     (\<exists>kvs. json_body r = Some (JObj kvs) \<and> map_of kvs ''items'' = Some (JArr xs)
            \<and> list_all is_object xs)"

definition has_items_key :: "response \<Rightarrow> bool" where
  "has_items_key r = (\<exists>kvs v. json_body r = Some (JObj kvs) \<and> map_of kvs ''items'' = Some v)"

definition well_formed_search :: "response \<Rightarrow> bool" where
  "well_formed_search r =
     (case json_body r of
        Some (JObj kvs) \<Rightarrow>
          (case map_of kvs ''items'' of
             None \<Rightarrow> True
           | Some (JArr xs) \<Rightarrow> list_all is_object xs
           | Some _ \<Rightarrow> False)
      | _ \<Rightarrow> False)"

text \<open>The request is answered, and a 200 answer is well formed.\<close>

definition answered_well :: "world \<Rightarrow> request \<Rightarrow> nat \<Rightarrow> bool" where
  "answered_well w req k =
     (case http_get w k req of
        Inl e \<Rightarrow> False
      | Inr r \<Rightarrow> status_code r \<noteq> 200 \<or> well_formed_search r)"

text \<open>\<open>r\<close> is the answer of the first attempt, among \<open>n\<close> attempts from request \<open>k\<close> on, that
  succeeds with status 200, every attempt before it having failed.\<close>

definition first_ok :: "world \<Rightarrow> request \<Rightarrow> nat \<Rightarrow> nat \<Rightarrow> response \<Rightarrow> bool" where
  "first_ok w req k n r =
     (\<exists>j<n. (\<forall>i<j. failing w req (k + i)) \<and> http_get w (k + j) req = Inr r \<and> status_code r = 200)"

text \<open>The values written under the key \<open>external_urls\<close>, in order.\<close>

fun url_writes :: "event list \<Rightarrow> stored list" where
  "url_writes [] = []"
| "url_writes (StoreData k v # evs) = (if k = ''external_urls'' then v # url_writes evs else url_writes evs)"
| "url_writes (e # evs) = url_writes evs"

text \<open>A world whose search endpoint answers 500 once and then 200 with the given body.\<close>

definition items_world :: "json \<Rightarrow> world" where
  "items_world body =
     \<lparr> http_get = (\<lambda>k req. Inr \<lparr> status_code = (if k = 0 then 500 else 200),
                                 json_body = Some body, feed_entries = [] \<rparr>),
       now_year = 2026,
       strptime = (\<lambda>t. Inl ''does not match format''),
       repr = (\<lambda>j. ''?'') \<rparr>"

definition two_items :: json where
  "two_items =
     JObj [(''kind'', JStr ''customsearch#search''),
           (''items'', JArr [JObj [(''title'', JStr ''A''), (''link'', JStr ''http://a.example''),
                                   (''snippet'', JStr ''first'')],
                             JObj [(''title'', JStr ''B'')]])]"

text \<open>
  Matching without regard to case, stated on the query as it is typed: the character \<open>c\<close>
  of the query is the keyword's letter \<open>k\<close> or its capital.
\<close>

definition same_letter :: "char \<Rightarrow> char \<Rightarrow> bool" where
  "same_letter c k =
     (c = k \<or> (c, k) \<in> set (zip ''ABCDEFGHIJKLMNOPQRSTUVWXYZ'' ''abcdefghijklmnopqrstuvwxyz''))"

section \<open>Properties\<close>

lemma upt_0_Suc: "[0 ..< Suc n] = 0 # map Suc [0 ..< n]"
  by (simp add: upt_conv_Cons map_Suc_upt del: upt_Suc)

lemma failed_attempts_0 [simp]: "failed_attempts w req api k a 0 = []"
  by (simp add: failed_attempts_def)

lemma failed_attempts_Suc:
  "failed_attempts w req api k a (Suc n) =
     [HttpGet req, LogEvent (attempt_failed api a (status_at w req k)), Sleep 1]
     @ failed_attempts w req api (Suc k) (Suc a) n"
  unfolding failed_attempts_def upt_0_Suc by (simp add: comp_def del: upt_Suc)

lemma failed_attempts_snoc:
  "failed_attempts w req api k a (Suc n) =
     failed_attempts w req api k a n
     @ [HttpGet req, LogEvent (attempt_failed api (a + n) (status_at w req (k + n))), Sleep 1]"
  by (simp add: failed_attempts_def)

lemma after_failures_0 [simp]: "after_failures w req api a 0 s = s"
  by (simp add: after_failures_def)

lemma after_failures_fields [simp]:
  "requests_made (after_failures w req api a j s) = requests_made s + j"
  "trace (after_failures w req api a j s) = trace s @ failed_attempts w req api (requests_made s) a j"
  "cache (after_failures w req api a j s) = cache s"
  "max_retries (after_failures w req api a j s) = max_retries s"
  by (simp_all add: after_failures_def)

lemma after_failures_Suc:
  "http_get w (requests_made s) req = Inr r \<Longrightarrow>
   after_failures w req api (Suc a) j
     (sleep 1 (log_event (attempt_failed api a (status_code r))
        (s\<lparr>trace := trace s @ [HttpGet req], requests_made := Suc (requests_made s)\<rparr>)))
   = after_failures w req api a (Suc j) s"
  by (simp add: after_failures_def failed_attempts_Suc sleep_def log_event_def status_at_def)

lemma failingE:
  assumes "failing w req k"
  obtains r where "http_get w k req = Inr r" "status_code r \<noteq> 200"
  using assms by (auto simp: failing_def split: sum.splits)

lemma google_loop_skip:
  "a + j \<le> b \<Longrightarrow> (\<forall>i<j. failing w req (requests_made s + i)) \<Longrightarrow>
   google_loop w req [a ..< b] s = google_loop w req [a + j ..< b] (after_failures w req ''Google'' a j s)"
proof (induction j arbitrary: a s)
  case 0
  then show ?case by simp
next
  case (Suc j)
  from Suc.prems(2) have "failing w req (requests_made s)" by force
  then obtain r where r: "http_get w (requests_made s) req = Inr r" "status_code r \<noteq> 200"
    by (rule failingE)
  let ?s' = "sleep 1 (log_event (attempt_failed ''Google'' a (status_code r))
               (s\<lparr>trace := trace s @ [HttpGet req], requests_made := Suc (requests_made s)\<rparr>))"
  have rm: "requests_made ?s' = Suc (requests_made s)"
    by (simp add: sleep_def log_event_def)
  have fs: "\<forall>i<j. failing w req (requests_made ?s' + i)"
    using Suc.prems(2) rm by auto
  have le: "Suc a + j \<le> b" using Suc.prems(1) by simp
  have "google_loop w req [a ..< b] s = google_loop w req [Suc a ..< b] ?s'"
    using Suc.prems(1) r by (simp add: upt_conv_Cons requests_get_def del: upt_Suc)
  also have "\<dots> = google_loop w req [Suc a + j ..< b] (after_failures w req ''Google'' (Suc a) j ?s')"
    by (rule Suc.IH[OF le fs])
  also have "after_failures w req ''Google'' (Suc a) j ?s' = after_failures w req ''Google'' a (Suc j) s"
    by (rule after_failures_Suc[OF r(1)])
  finally show ?case by simp
qed

lemma nasa_loop_skip:
  "a + j \<le> b \<Longrightarrow> (\<forall>i<j. failing w req (requests_made s + i)) \<Longrightarrow>
   nasa_loop w req [a ..< b] s = nasa_loop w req [a + j ..< b] (after_failures w req ''NASA'' a j s)"
proof (induction j arbitrary: a s)
  case 0
  then show ?case by simp
next
  case (Suc j)
  from Suc.prems(2) have "failing w req (requests_made s)" by force
  then obtain r where r: "http_get w (requests_made s) req = Inr r" "status_code r \<noteq> 200"
    by (rule failingE)
  let ?s' = "sleep 1 (log_event (attempt_failed ''NASA'' a (status_code r))
               (s\<lparr>trace := trace s @ [HttpGet req], requests_made := Suc (requests_made s)\<rparr>))"
  have rm: "requests_made ?s' = Suc (requests_made s)"
    by (simp add: sleep_def log_event_def)
  have fs: "\<forall>i<j. failing w req (requests_made ?s' + i)"
    using Suc.prems(2) rm by auto
  have le: "Suc a + j \<le> b" using Suc.prems(1) by simp
  have "nasa_loop w req [a ..< b] s = nasa_loop w req [Suc a ..< b] ?s'"
    using Suc.prems(1) r by (simp add: upt_conv_Cons requests_get_def del: upt_Suc)
  also have "\<dots> = nasa_loop w req [Suc a + j ..< b] (after_failures w req ''NASA'' (Suc a) j ?s')"
    by (rule Suc.IH[OF le fs])
  also have "after_failures w req ''NASA'' (Suc a) j ?s' = after_failures w req ''NASA'' a (Suc j) s"
    by (rule after_failures_Suc[OF r(1)])
  finally show ?case by simp
qed

lemma arxiv_loop_skip:
  "a + j \<le> b \<Longrightarrow> (\<forall>i<j. failing w req (requests_made s + i)) \<Longrightarrow>
   arxiv_loop w req [a ..< b] s = arxiv_loop w req [a + j ..< b] (after_failures w req ''arXiv'' a j s)"
proof (induction j arbitrary: a s)
  case 0
  then show ?case by simp
next
  case (Suc j)
  from Suc.prems(2) have "failing w req (requests_made s)" by force
  then obtain r where r: "http_get w (requests_made s) req = Inr r" "status_code r \<noteq> 200"
    by (rule failingE)
  let ?s' = "sleep 1 (log_event (attempt_failed ''arXiv'' a (status_code r))
               (s\<lparr>trace := trace s @ [HttpGet req], requests_made := Suc (requests_made s)\<rparr>))"
  have rm: "requests_made ?s' = Suc (requests_made s)"
    by (simp add: sleep_def log_event_def)
  have fs: "\<forall>i<j. failing w req (requests_made ?s' + i)"
    using Suc.prems(2) rm by auto
  have le: "Suc a + j \<le> b" using Suc.prems(1) by simp
  have "arxiv_loop w req [a ..< b] s = arxiv_loop w req [Suc a ..< b] ?s'"
    using Suc.prems(1) r by (simp add: upt_conv_Cons requests_get_def del: upt_Suc)
  also have "\<dots> = arxiv_loop w req [Suc a + j ..< b] (after_failures w req ''arXiv'' (Suc a) j ?s')"
    by (rule Suc.IH[OF le fs])
  also have "after_failures w req ''arXiv'' (Suc a) j ?s' = after_failures w req ''arXiv'' a (Suc j) s"
    by (rule after_failures_Suc[OF r(1)])
  finally show ?case by simp
qed

lemma first_decisive:
  "(\<forall>i<n. failing w req (k + i)) \<or> (\<exists>j<n. (\<forall>i<j. failing w req (k + i)) \<and> \<not> failing w req (k + j))"
proof (cases "\<forall>i<n. failing w req (k + i)")
  case True
  then show ?thesis by blast
next
  case False
  then obtain i where i: "i < n" "\<not> failing w req (k + i)" by blast
  define j where "j = (LEAST i. \<not> failing w req (k + i))"
  have "\<not> failing w req (k + j)" unfolding j_def using i(2) by (rule LeastI)
  moreover have "j \<le> i" unfolding j_def using i(2) by (rule Least_le)
  moreover have "\<forall>i'<j. failing w req (k + i')"
    unfolding j_def using not_less_Least by blast
  ultimately have "j < n \<and> (\<forall>i<j. failing w req (k + i)) \<and> \<not> failing w req (k + j)"
    using i(1) by simp
  then show ?thesis by blast
qed

lemma google_loop_exhausted:
  assumes "\<forall>i<n. failing w req (requests_made s + i)"
  shows "google_loop w req [0 ..< n] s = (Inr None, after_failures w req ''Google'' 0 n s)"
proof -
  have "google_loop w req [0 ..< n] s = google_loop w req [0 + n ..< n] (after_failures w req ''Google'' 0 n s)"
    using assms by (intro google_loop_skip) auto
  then show ?thesis by simp
qed

lemma nasa_loop_exhausted:
  assumes "\<forall>i<n. failing w req (requests_made s + i)"
  shows "nasa_loop w req [0 ..< n] s = (Inr None, after_failures w req ''NASA'' 0 n s)"
proof -
  have "nasa_loop w req [0 ..< n] s = nasa_loop w req [0 + n ..< n] (after_failures w req ''NASA'' 0 n s)"
    using assms by (intro nasa_loop_skip) auto
  then show ?thesis by simp
qed

lemma arxiv_loop_exhausted:
  assumes "\<forall>i<n. failing w req (requests_made s + i)"
  shows "arxiv_loop w req [0 ..< n] s = (Inr None, after_failures w req ''arXiv'' 0 n s)"
proof -
  have "arxiv_loop w req [0 ..< n] s = arxiv_loop w req [0 + n ..< n] (after_failures w req ''arXiv'' 0 n s)"
    using assms by (intro arxiv_loop_skip) auto
  then show ?thesis by simp
qed

subsection \<open>What a call can change\<close>

lemma grows_refl: "grows s [] s"
  unfolding grows_def by (rule exI[of _ 0]) simp

lemma grows_trans: "grows s evs s1 \<Longrightarrow> grows s1 evs' s2 \<Longrightarrow> grows s (evs @ evs') s2"
  unfolding grows_def by (auto simp: add.assoc)

lemma grows_log: "grows s [LogEvent m] (log_event m s)"
  unfolding grows_def log_event_def by (rule exI[of _ 0]) simp

lemma grows_store: "grows s [StoreData k v] (store_data k v s)"
  unfolding grows_def store_data_def by (rule exI[of _ 0]) simp

lemma grows_sleep: "grows s [Sleep n] (sleep n s)"
  unfolding grows_def sleep_def by (rule exI[of _ 0]) simp

lemma grows_get: "grows s [HttpGet req] (snd (requests_get w req s))"
  unfolding grows_def requests_get_def by (rule exI[of _ 1]) simp

lemma grows_fields:
  assumes "grows s evs s'"
  shows "cache s' = cache s" "max_retries s' = max_retries s" "trace s' = trace s @ evs"
    "emitted s s' = evs" "requests_made s \<le> requests_made s'"
    "google_api_key s' = google_api_key s" "google_cx s' = google_cx s"
    "google_endpoint s' = google_endpoint s"
    "nasa_api_key s' = nasa_api_key s" "nasa_endpoint s' = nasa_endpoint s"
  using assms unfolding grows_def emitted_def by auto

lemma quiet_simps [simp]:
  "quiet []" "quiet (e # evs) = (\<not> is_query_line e \<and> quiet evs)"
  "quiet (evs @ evs') = (quiet evs \<and> quiet evs')"
  by (simp_all add: quiet_def)

lemma not_query_line [simp]:
  "\<not> is_query_line (HttpGet req)" "\<not> is_query_line (Sleep n)" "\<not> is_query_line (StoreData k v)"
  "\<not> is_query_line (LogEvent (attempt_failed ''Google'' a st))"
  "\<not> is_query_line (LogEvent (attempt_failed ''NASA'' a st))"
  "\<not> is_query_line (LogEvent (attempt_failed ''arXiv'' a st))"
  "\<not> is_query_line (LogEvent (parse_error_line t m))"
  "\<not> is_query_line (LogEvent (processing_line q))"
  "\<not> is_query_line (LogEvent (tag @ ''Cache hit! Returning cached data.''))"
  "\<not> is_query_line (LogEvent (tag @ ''arXiv API request failed after retries''))"
  "\<not> is_query_line (LogEvent (tag @ ''Found '' @ rest))"
  "\<not> is_query_line (LogEvent (tag @ ''Cached the new result.''))"
  by (simp_all add: is_query_line_def google_line_def nasa_line_def arxiv_line_def tag_def
        attempt_failed_def parse_error_line_def processing_line_def)

lemma query_lines_distinct:
  "google_line \<noteq> nasa_line" "google_line \<noteq> arxiv_line" "nasa_line \<noteq> arxiv_line"
  by (simp_all add: google_line_def nasa_line_def arxiv_line_def tag_def)

lemma quiet_count: "quiet evs \<Longrightarrow> is_query_line x \<Longrightarrow> count_list evs x = 0"
  by (induction evs) auto

lemma google_ok_state:
  "snd (google_ok w r s) = s
   \<or> (\<exists>urls. snd (google_ok w r s) = store_data ''external_urls'' (StoredUrls urls) s)"
  unfolding google_ok_def
  by (auto simp: Let_def split: option.splits sum.splits bool.splits)

lemma google_ok_grows: "\<exists>evs. grows s evs (snd (google_ok w r s)) \<and> quiet evs"
  using google_ok_state[of w r s] grows_refl[of s] grows_store[of s]
  by (metis quiet_simps(1,2) not_query_line(3))

lemma google_loop_grows: "\<exists>evs. grows s evs (snd (google_loop w req xs s)) \<and> quiet evs"
proof (induction xs arbitrary: s)
  case Nil
  show ?case using grows_refl[of s] by (auto intro: exI[of _ "[]"])
next
  case (Cons a xs)
  let ?s1 = "snd (requests_get w req s)"
  have g1: "grows s [HttpGet req] ?s1" by (rule grows_get)
  show ?case
  proof (cases "fst (requests_get w req s)")
    case (Inl e)
    then have "snd (google_loop w req (a # xs) s) = ?s1"
      by (simp add: split_beta)
    with g1 show ?thesis by (auto intro!: exI[of _ "[HttpGet req]"])
  next
    case (Inr r)
    show ?thesis
    proof (cases "status_code r = 200")
      case True
      then have "snd (google_loop w req (a # xs) s) = snd (google_ok w r ?s1)"
        using Inr by (simp add: split_beta split: sum.splits)
      moreover obtain evs where "grows ?s1 evs (snd (google_ok w r ?s1))" "quiet evs"
        using google_ok_grows by blast
      ultimately show ?thesis
        using grows_trans[OF g1] by (auto intro!: exI[of _ "[HttpGet req] @ evs"])
    next
      case False
      let ?m = "attempt_failed ''Google'' a (status_code r)"
      let ?s2 = "sleep 1 (log_event ?m ?s1)"
      have eq: "snd (google_loop w req (a # xs) s) = snd (google_loop w req xs ?s2)"
        using Inr False by (simp add: split_beta)
      have g2: "grows s ([HttpGet req] @ [LogEvent ?m] @ [Sleep 1]) ?s2"
        by (intro grows_trans[OF g1] grows_trans[OF grows_log] grows_sleep)
      obtain evs where "grows ?s2 evs (snd (google_loop w req xs ?s2))" "quiet evs"
        using Cons.IH by blast
      with grows_trans[OF g2] eq show ?thesis
        by (auto intro!: exI[of _ "([HttpGet req] @ [LogEvent ?m] @ [Sleep 1]) @ evs"])
    qed
  qed
qed


lemma nasa_loop_grows: "\<exists>evs. grows s evs (snd (nasa_loop w req xs s)) \<and> quiet evs"
proof (induction xs arbitrary: s)
  case Nil
  show ?case using grows_refl[of s] by (auto intro: exI[of _ "[]"])
next
  case (Cons a xs)
  let ?s1 = "snd (requests_get w req s)"
  have g1: "grows s [HttpGet req] ?s1" by (rule grows_get)
  show ?case
  proof (cases "fst (requests_get w req s)")
    case (Inl e)
    then have "snd (nasa_loop w req (a # xs) s) = ?s1"
      by (simp add: split_beta)
    with g1 show ?thesis by (auto intro!: exI[of _ "[HttpGet req]"])
  next
    case (Inr r)
    show ?thesis
    proof (cases "status_code r = 200")
      case True
      then have "snd (nasa_loop w req (a # xs) s) = ?s1"
        using Inr by (simp add: split_beta split: sum.splits)
      with g1 show ?thesis by (auto intro!: exI[of _ "[HttpGet req]"])
    next
      case False
      let ?m = "attempt_failed ''NASA'' a (status_code r)"
      let ?s2 = "sleep 1 (log_event ?m ?s1)"
      have eq: "snd (nasa_loop w req (a # xs) s) = snd (nasa_loop w req xs ?s2)"
        using Inr False by (simp add: split_beta)
      have g2: "grows s ([HttpGet req] @ [LogEvent ?m] @ [Sleep 1]) ?s2"
        by (intro grows_trans[OF g1] grows_trans[OF grows_log] grows_sleep)
      obtain evs where "grows ?s2 evs (snd (nasa_loop w req xs ?s2))" "quiet evs"
        using Cons.IH by blast
      with grows_trans[OF g2] eq show ?thesis
        by (auto intro!: exI[of _ "([HttpGet req] @ [LogEvent ?m] @ [Sleep 1]) @ evs"])
    qed
  qed
qed

lemma arxiv_loop_grows: "\<exists>evs. grows s evs (snd (arxiv_loop w req xs s)) \<and> quiet evs"
proof (induction xs arbitrary: s)
  case Nil
  show ?case using grows_refl[of s] by (auto intro: exI[of _ "[]"])
next
  case (Cons a xs)
  let ?s1 = "snd (requests_get w req s)"
  have g1: "grows s [HttpGet req] ?s1" by (rule grows_get)
  show ?case
  proof (cases "fst (requests_get w req s)")
    case (Inl e)
    then have "snd (arxiv_loop w req (a # xs) s) = ?s1"
      by (simp add: split_beta)
    with g1 show ?thesis by (auto intro!: exI[of _ "[HttpGet req]"])
  next
    case (Inr r)
    show ?thesis
    proof (cases "status_code r = 200")
      case True
      then have "snd (arxiv_loop w req (a # xs) s) = ?s1"
        using Inr by (simp add: split_beta)
      with g1 show ?thesis by (auto intro!: exI[of _ "[HttpGet req]"])
    next
      case False
      let ?m = "attempt_failed ''arXiv'' a (status_code r)"
      let ?s2 = "sleep 1 (log_event ?m ?s1)"
      have eq: "snd (arxiv_loop w req (a # xs) s) = snd (arxiv_loop w req xs ?s2)"
        using Inr False by (simp add: split_beta)
      have g2: "grows s ([HttpGet req] @ [LogEvent ?m] @ [Sleep 1]) ?s2"
        by (intro grows_trans[OF g1] grows_trans[OF grows_log] grows_sleep)
      obtain evs where "grows ?s2 evs (snd (arxiv_loop w req xs ?s2))" "quiet evs"
        using Cons.IH by blast
      with grows_trans[OF g2] eq show ?thesis
        by (auto intro!: exI[of _ "([HttpGet req] @ [LogEvent ?m] @ [Sleep 1]) @ evs"])
    qed
  qed
qed

lemma arxiv_entries_grows:
  "\<exists>evs. grows s evs (snd (arxiv_entries w th es papers s)) \<and> quiet evs"
proof (induction es arbitrary: papers s)
  case Nil
  show ?case using grows_refl[of s] by (auto intro: exI[of _ "[]"])
next
  case (Cons entry es)
  let ?p = "opt_get (e_published entry) []"
  show ?case
  proof (cases "strptime w ?p")
    case (Inr d)
    then have "\<exists>papers'. snd (arxiv_entries w th (entry # es) papers s)
                 = snd (arxiv_entries w th es papers' s)"
      by (auto simp: Let_def)
    then show ?thesis using Cons.IH by metis
  next
    case (Inl m)
    let ?s1 = "log_event (parse_error_line ?p m) s"
    from Inl have "\<exists>papers'. snd (arxiv_entries w th (entry # es) papers s)
                 = snd (arxiv_entries w th es papers' ?s1)"
      by (auto simp: Let_def)
    then obtain papers' where eq: "snd (arxiv_entries w th (entry # es) papers s)
                 = snd (arxiv_entries w th es papers' ?s1)" by blast
    obtain evs where "grows ?s1 evs (snd (arxiv_entries w th es papers' ?s1))" "quiet evs"
      using Cons.IH by blast
    with grows_trans[OF grows_log[of s "parse_error_line ?p m"]] eq show ?thesis
      by (auto intro!: exI[of _ "[LogEvent (parse_error_line ?p m)] @ evs"])
  qed
qed

lemma fetch_from_google_grows:
  "\<exists>evs. grows s (LogEvent google_line # evs) (snd (fetch_from_google w query s)) \<and> quiet evs"
proof -
  let ?s = "log_event google_line s"
  let ?l = "google_loop w (google_request query ?s) (py_range (max_retries ?s)) ?s"
  have "snd (fetch_from_google w query s) = snd ?l"
    by (simp add: fetch_from_google_def google_line_def Let_def split_beta split: sum.splits option.splits)
  moreover obtain evs where "grows ?s evs (snd ?l)" "quiet evs"
    using google_loop_grows by blast
  ultimately show ?thesis
    using grows_trans[OF grows_log[of s google_line]] by auto
qed

lemma fetch_from_nasa_grows:
  "\<exists>evs. grows s (LogEvent nasa_line # evs) (snd (fetch_from_nasa w query s)) \<and> quiet evs"
proof -
  let ?s = "log_event nasa_line s"
  let ?l = "nasa_loop w (nasa_request query ?s) (py_range (max_retries ?s)) ?s"
  have "snd (fetch_from_nasa w query s) = snd ?l"
    by (simp add: fetch_from_nasa_def nasa_line_def Let_def split_beta split: sum.splits option.splits)
  moreover obtain evs where "grows ?s evs (snd ?l)" "quiet evs"
    using nasa_loop_grows by blast
  ultimately show ?thesis
    using grows_trans[OF grows_log[of s nasa_line]] by auto
qed

lemma fetch_from_arxiv_grows:
  "\<exists>evs. grows s (LogEvent arxiv_line # evs) (snd (fetch_from_arxiv w query s)) \<and> quiet evs"
proof -
  let ?s = "log_event arxiv_line s"
  let ?l = "arxiv_loop w (arxiv_request query) (py_range (max_retries ?s)) ?s"
  obtain evs where l: "grows ?s evs (snd ?l)" "quiet evs"
    using arxiv_loop_grows by blast
  have g: "grows s ([LogEvent arxiv_line] @ evs) (snd ?l)"
    by (rule grows_trans[OF grows_log l(1)])
  show ?thesis
  proof (cases "fst ?l")
    case (Inl e)
    then have "snd (fetch_from_arxiv w query s) = snd ?l"
      by (simp add: fetch_from_arxiv_def arxiv_line_def Let_def split_beta)
    with g l(2) show ?thesis by auto
  next
    case (Inr ro)
    show ?thesis
    proof (cases ro)
      case None
      let ?m = "tag @ ''arXiv API request failed after retries''"
      from None Inr have "snd (fetch_from_arxiv w query s) = log_event ?m (snd ?l)"
        by (simp add: fetch_from_arxiv_def arxiv_line_def Let_def split_beta)
      with grows_trans[OF g grows_log[of _ ?m]] l(2) show ?thesis
        by (auto intro!: exI[of _ "evs @ [LogEvent ?m]"])
    next
      case (Some r)
      let ?e = "arxiv_entries w (now_year w - 5) (feed_entries r) [] (snd ?l)"
      from Some Inr have "snd (fetch_from_arxiv w query s) = snd ?e"
        by (simp add: fetch_from_arxiv_def arxiv_line_def Let_def split_beta)
      moreover obtain evs' where "grows (snd ?l) evs' (snd ?e)" "quiet evs'"
        using arxiv_entries_grows by blast
      ultimately show ?thesis using grows_trans[OF g] l(2)
        by (auto intro!: exI[of _ "evs @ evs'"])
    qed
  qed
qed

subsection \<open>Substrings\<close>

lemma str_in_append: "str_in k (pre @ k @ post)"
proof (induction pre)
  case Nil
  have "starts_with (k @ post) k" by (simp add: starts_with_def)
  then show ?case by (cases "k @ post") simp_all
next
  case (Cons p ps)
  then show ?case by simp
qed

lemma str_in_iff: "str_in k s \<longleftrightarrow> (\<exists>pre post. s = pre @ k @ post)"
proof
  show "str_in k s \<Longrightarrow> \<exists>pre post. s = pre @ k @ post"
  proof (induction s)
    case Nil
    then show ?case by simp
  next
    case (Cons c cs)
    show ?case
    proof (cases "starts_with (c # cs) k")
      case True
      then have "c # cs = [] @ k @ drop (length k) (c # cs)"
        unfolding starts_with_def by (metis append_Nil append_take_drop_id)
      then show ?thesis by blast
    next
      case False
      with Cons.prems have "str_in k cs" by simp
      from Cons.IH[OF this] obtain pre post where "cs = pre @ k @ post" by blast
      then have "c # cs = (c # pre) @ k @ post" by simp
      then show ?thesis by blast
    qed
  qed
next
  show "\<exists>pre post. s = pre @ k @ post \<Longrightarrow> str_in k s"
    using str_in_append by blast
qed

text \<open>
  Claim C3. When each of the \<open>max_retries\<close> requests of a summary adapter (web search,
  astronomy) is answered with a status other than 200, the adapter returns its sentinel
  text and raises nothing. Its calls are the start line followed, for every attempt, by
  the request, the failure line and a sleep of one unit, so one unit of delay lies between
  two attempts. The sentinel text contains the attempt count, and the count is 2 when the
  constructor is called without one.
\<close>

theorem summary_retry_exhaustion:
  "((\<forall>i < nat (max_retries s). failing w (google_request query s) (requests_made s + i)) \<longrightarrow>
      fetch_from_google w query s =
        (Inr (google_sentinel (max_retries s)),
         s\<lparr>trace := trace s @ LogEvent (tag @ ''Querying Google Custom Search API.'')
                      # failed_attempts w (google_request query s) ''Google'' (requests_made s) 0
                          (nat (max_retries s)),
           requests_made := requests_made s + nat (max_retries s)\<rparr>))
   \<and> ((\<forall>i < nat (max_retries s). failing w (nasa_request query s) (requests_made s + i)) \<longrightarrow>
      fetch_from_nasa w query s =
        (Inr (nasa_sentinel (max_retries s)),
         s\<lparr>trace := trace s @ LogEvent (tag @ ''Querying NASA API (APOD).'')
                      # failed_attempts w (nasa_request query s) ''NASA'' (requests_made s) 0
                          (nat (max_retries s)),
           requests_made := requests_made s + nat (max_retries s)\<rparr>))
   \<and> str_in (str_int (max_retries s)) (google_sentinel (max_retries s))
   \<and> str_in (str_int (max_retries s)) (nasa_sentinel (max_retries s))
   \<and> max_retries (init env None) = 2"
proof (intro conjI impI)
  let ?n = "nat (max_retries s)"
  let ?g = "log_event (tag @ ''Querying Google Custom Search API.'') s"
  let ?m = "log_event (tag @ ''Querying NASA API (APOD).'') s"
  {
    assume "\<forall>i < ?n. failing w (google_request query s) (requests_made s + i)"
    then have "\<forall>i < ?n. failing w (google_request query ?g) (requests_made ?g + i)"
      by (simp add: log_event_def google_request_def)
    from google_loop_exhausted[OF this]
    show "fetch_from_google w query s =
        (Inr (google_sentinel (max_retries s)),
         s\<lparr>trace := trace s @ LogEvent (tag @ ''Querying Google Custom Search API.'')
                      # failed_attempts w (google_request query s) ''Google'' (requests_made s) 0 ?n,
           requests_made := requests_made s + ?n\<rparr>)"
      by (simp add: fetch_from_google_def py_range_def log_event_def google_request_def after_failures_def)
  }
  {
    assume "\<forall>i < ?n. failing w (nasa_request query s) (requests_made s + i)"
    then have "\<forall>i < ?n. failing w (nasa_request query ?m) (requests_made ?m + i)"
      by (simp add: log_event_def nasa_request_def)
    from nasa_loop_exhausted[OF this]
    show "fetch_from_nasa w query s =
        (Inr (nasa_sentinel (max_retries s)),
         s\<lparr>trace := trace s @ LogEvent (tag @ ''Querying NASA API (APOD).'')
                      # failed_attempts w (nasa_request query s) ''NASA'' (requests_made s) 0 ?n,
           requests_made := requests_made s + ?n\<rparr>)"
      by (simp add: fetch_from_nasa_def py_range_def log_event_def nasa_request_def after_failures_def)
  }
  show "str_in (str_int (max_retries s)) (google_sentinel (max_retries s))"
    unfolding google_sentinel_def by (rule str_in_append)
  show "str_in (str_int (max_retries s)) (nasa_sentinel (max_retries s))"
    unfolding nasa_sentinel_def by (rule str_in_append)
  show "max_retries (init env None) = 2"
    by (simp add: init_def)
qed

lemma str_int_small: "str_int 2 = ''2''" "str_int 1 = ''1''" "str_int 503 = ''503''"
  by (simp_all add: str_int_def str_nat.simps digit_char_def)

theorem summary_retry_exhaustion_witness:
  "fetch_from_google down_world ''best pizza recipe'' (init Map.empty None) =
     (Inr ''Error: Google Search API request failed after 2 attempts.'',
      (init Map.empty None)
        \<lparr>trace :=
           [LogEvent ''[APISelectionAgent] Querying Google Custom Search API.'',
            HttpGet (google_request ''best pizza recipe'' (init Map.empty None)),
            LogEvent ''[APISelectionAgent] Google API attempt 1 failed with status 503'',
            Sleep 1,
            HttpGet (google_request ''best pizza recipe'' (init Map.empty None)),
            LogEvent ''[APISelectionAgent] Google API attempt 2 failed with status 503'',
            Sleep 1],
         requests_made := 2\<rparr>)
   \<and> fst (fetch_from_nasa down_world ''asteroid'' (init Map.empty None)) =
       Inr ''Error: NASA API request failed after 2 attempts.''"
proof -
  let ?s = "init Map.empty None"
  have mr: "nat (max_retries ?s) = 2" by (simp add: init_def)
  have g: "\<forall>i < nat (max_retries ?s). failing down_world (google_request ''best pizza recipe'' ?s) (requests_made ?s + i)"
    by (simp add: failing_def down_world_def)
  have n: "\<forall>i < nat (max_retries ?s). failing down_world (nasa_request ''asteroid'' ?s) (requests_made ?s + i)"
    by (simp add: failing_def down_world_def)
  have two: "[0 ..< 2] = [0, Suc 0]" by (simp add: upt_conv_Cons del: upt_Suc)
  have mr2: "max_retries ?s = 2" by (simp add: init_def)
  show ?thesis
    using summary_retry_exhaustion[of ?s down_world "''best pizza recipe''", THEN conjunct1, THEN mp, OF g]
      summary_retry_exhaustion[of ?s down_world "''asteroid''", THEN conjunct2, THEN conjunct1, THEN mp, OF n]
    unfolding mr mr2
    by (simp add: google_sentinel_def nasa_sentinel_def str_int_small failed_attempts_def two
          attempt_failed_def tag_def status_at_def down_world_def init_def)
qed

lemma arxiv_entries_result:
  "fst (arxiv_entries w th es papers s) =
     papers @ map (paper_of w)
       (filter (\<lambda>e. th \<le> (case strptime w (published_text e) of Inr d \<Rightarrow> dt_year d | Inl m \<Rightarrow> 0)) es)"
  by (induction es arbitrary: papers s)
     (auto simp: paper_of_def published_text_def Let_def split: sum.splits)


lemma arxiv_loop_success:
  assumes "j < n" "\<forall>i<j. failing w req (requests_made s + i)"
    and "http_get w (requests_made s + j) req = Inr r" "status_code r = 200"
  shows "arxiv_loop w req [0 ..< n] s =
           (Inr (Some r),
            s\<lparr>trace := trace s @ failed_attempts w req ''arXiv'' (requests_made s) 0 j @ [HttpGet req],
              requests_made := Suc (requests_made s + j)\<rparr>)"
proof -
  have "arxiv_loop w req [0 ..< n] s = arxiv_loop w req [0 + j ..< n] (after_failures w req ''arXiv'' 0 j s)"
    using assms(1,2) by (intro arxiv_loop_skip) auto
  also have "\<dots> = (Inr (Some r),
            s\<lparr>trace := trace s @ failed_attempts w req ''arXiv'' (requests_made s) 0 j @ [HttpGet req],
              requests_made := Suc (requests_made s + j)\<rparr>)"
    using assms(1,3,4)
    by (simp add: upt_conv_Cons requests_get_def after_failures_def del: upt_Suc)
  finally show ?thesis .
qed

text \<open>
  Claim C6. When each of the \<open>max_retries\<close> requests to the feed endpoint is answered with
  a status other than 200, the feed adapter returns the empty list of papers: a list, where
  the two summary adapters return a text, and no exception.
\<close>

theorem feed_retry_exhaustion:
  assumes "\<forall>i < nat (max_retries s). failing w (arxiv_request query) (requests_made s + i)"
  shows "fetch_from_arxiv w query s =
           (Inr [],
            s\<lparr>trace := trace s @ [LogEvent (tag @ ''Querying arXiv API for research papers.'')]
                          @ failed_attempts w (arxiv_request query) ''arXiv'' (requests_made s) 0
                              (nat (max_retries s))
                          @ [LogEvent (tag @ ''arXiv API request failed after retries'')],
              requests_made := requests_made s + nat (max_retries s)\<rparr>)"
proof -
  let ?s = "log_event (tag @ ''Querying arXiv API for research papers.'') s"
  have "\<forall>i < nat (max_retries s). failing w (arxiv_request query) (requests_made ?s + i)"
    using assms by (simp add: log_event_def)
  from arxiv_loop_exhausted[OF this] show ?thesis
    by (simp add: fetch_from_arxiv_def py_range_def log_event_def after_failures_def)
qed

theorem feed_retry_exhaustion_witness:
  "fetch_from_arxiv down_world ''best pizza recipe'' (init Map.empty None) =
     (Inr [],
      (init Map.empty None)
        \<lparr>trace :=
           [LogEvent ''[APISelectionAgent] Querying arXiv API for research papers.'',
            HttpGet (arxiv_request ''best pizza recipe''),
            LogEvent ''[APISelectionAgent] arXiv API attempt 1 failed with status 503'',
            Sleep 1,
            HttpGet (arxiv_request ''best pizza recipe''),
            LogEvent ''[APISelectionAgent] arXiv API attempt 2 failed with status 503'',
            Sleep 1,
            LogEvent ''[APISelectionAgent] arXiv API request failed after retries''],
         requests_made := 2\<rparr>)"
proof -
  let ?s = "init Map.empty None"
  have mr: "nat (max_retries ?s) = 2" by (simp add: init_def)
  have f: "\<forall>i < nat (max_retries ?s). failing down_world (arxiv_request ''best pizza recipe'') (requests_made ?s + i)"
    by (simp add: failing_def down_world_def)
  have two: "[0 ..< 2] = [0, Suc 0]" by (simp add: upt_conv_Cons del: upt_Suc)
  show ?thesis
    using feed_retry_exhaustion[OF f]
    unfolding mr
    by (simp add: str_int_small failed_attempts_def two
          attempt_failed_def tag_def status_at_def down_world_def init_def)
qed

text \<open>
  Claim C4. When an attempt within the configured count is answered with status 200 (the
  attempts before it having failed), the feed adapter returns the records of exactly the
  entries of that response whose \<open>published\<close> text parses against the format with a year of
  at least the current year minus five, in the order of the feed. An entry whose text does
  not parse is not among them (its year is set to 0, below the threshold of any clock year
  above 5) and nothing is raised.
\<close>

theorem feed_recency_filter:
  assumes "5 < now_year w"
    and "j < nat (max_retries s)"
    and "\<forall>i<j. failing w (arxiv_request query) (requests_made s + i)"
    and "http_get w (requests_made s + j) (arxiv_request query) = Inr r"
    and "status_code r = 200"
  shows "fst (fetch_from_arxiv w query s) =
           Inr (map (paper_of w) (filter (recent w) (feed_entries r)))"
proof -
  let ?s = "log_event (tag @ ''Querying arXiv API for research papers.'') s"
  have rm: "requests_made ?s = requests_made s" "max_retries ?s = max_retries s"
    by (simp_all add: log_event_def)
  have keep: "(\<lambda>e. now_year w - 5 \<le> (case strptime w (published_text e) of Inr d \<Rightarrow> dt_year d | Inl m \<Rightarrow> 0))
              = recent w"
    using assms(1) by (auto simp: recent_def fun_eq_iff split: sum.splits)
  have loop: "arxiv_loop w (arxiv_request query) [0 ..< nat (max_retries s)] ?s =
          (Inr (Some r),
            ?s\<lparr>trace := trace ?s @ failed_attempts w (arxiv_request query) ''arXiv'' (requests_made ?s) 0 j
                          @ [HttpGet (arxiv_request query)],
              requests_made := Suc (requests_made ?s + j)\<rparr>)"
    using assms(2-5) by (intro arxiv_loop_success) (simp_all add: rm)
  show ?thesis
    unfolding fetch_from_arxiv_def Let_def py_range_def rm loop
    by (simp add: split_beta arxiv_entries_result keep)
qed

theorem feed_recency_filter_witness:
  "fst (fetch_from_arxiv feed_world ''quantum'' (init Map.empty None)) =
     Inr [\<lparr> title = ''New'', summary = ''No summary available.'', year = 2026,
             published = ''2026-03-01T10:00:00Z'', link = ''http://arxiv.org/abs/1'',
             parsed_date = \<lparr> dt_year = 2026, dt_month = 3, dt_day = 1, dt_hour = 10,
                             dt_minute = 0, dt_second = 0 \<rparr> \<rparr>,
          \<lparr> title = ''Edge'', summary = ''No summary available.'', year = 2021,
             published = ''2021-06-15T08:30:00Z'', link = ''http://arxiv.org/abs/1'',
             parsed_date = \<lparr> dt_year = 2021, dt_month = 6, dt_day = 15, dt_hour = 8,
                             dt_minute = 30, dt_second = 0 \<rparr> \<rparr>]"
proof -
  let ?s = "init Map.empty None"
  let ?req = "arxiv_request ''quantum''"
  have y: "5 < now_year feed_world" by (simp add: feed_world_def)
  have j: "1 < nat (max_retries ?s)" by (simp add: init_def)
  have f: "\<forall>i<1. failing feed_world ?req (requests_made ?s + i)"
    by (simp add: failing_def feed_world_def init_def)
  have r: "http_get feed_world (requests_made ?s + 1) ?req =
             Inr \<lparr> status_code = 200, json_body = None, feed_entries = sample_feed \<rparr>"
    by (simp add: feed_world_def init_def)
  show ?thesis
    using feed_recency_filter[OF y j f r]
    by (simp add: sample_feed_def sample_entry_def recent_def paper_of_def published_text_def
          opt_get_def feed_world_def sample_strptime_def pointer_def strip_def is_space_def)
qed

subsection \<open>The orchestrator\<close>

lemma is_space_pizza: "\<not> is_space_query ''best pizza recipe''"
  by (simp add: is_space_query_def space_keywords_def lower_def lower_char_def starts_with_def)

lemma is_space_asteroid: "is_space_query ''latest asteroid discovery''"
  by (simp add: is_space_query_def space_keywords_def lower_def lower_char_def starts_with_def)

lemma str_int_0: "str_int 0 = ''0''"
  by (simp add: str_int_def str_nat.simps digit_char_def)

lemma down_world_fetch:
  "fetch_external_data down_world ''best pizza recipe'' (init Map.empty None) =
     (Inr down_composite,
      (init Map.empty None)
        \<lparr>cache := [''best pizza recipe'' \<mapsto> down_composite],
         trace :=
           [LogEvent (processing_line ''best pizza recipe''),
            LogEvent google_line,
            HttpGet (google_request ''best pizza recipe'' (init Map.empty None)),
            LogEvent ''[APISelectionAgent] Google API attempt 1 failed with status 503'',
            Sleep 1,
            HttpGet (google_request ''best pizza recipe'' (init Map.empty None)),
            LogEvent ''[APISelectionAgent] Google API attempt 2 failed with status 503'',
            Sleep 1,
            LogEvent arxiv_line,
            HttpGet (arxiv_request ''best pizza recipe''),
            LogEvent ''[APISelectionAgent] arXiv API attempt 1 failed with status 503'',
            Sleep 1,
            HttpGet (arxiv_request ''best pizza recipe''),
            LogEvent ''[APISelectionAgent] arXiv API attempt 2 failed with status 503'',
            Sleep 1,
            LogEvent ''[APISelectionAgent] arXiv API request failed after retries'',
            LogEvent ''[APISelectionAgent] Found 0 advancements from arXiv.'',
            LogEvent ''[APISelectionAgent] Cached the new result.'',
            StoreData ''external_data'' (StoredComposite down_composite)],
         requests_made := 4\<rparr>)"
proof -
  have two: "[0 ..< 2] = [0, Suc 0]" by (simp add: upt_conv_Cons del: upt_Suc)
  show ?thesis
    unfolding fetch_external_data_def Let_def
    by (simp add: is_space_pizza init_def log_event_def store_data_def sleep_def
          fetch_from_google_def fetch_from_arxiv_def py_range_def two requests_get_def
          down_world_def google_sentinel_def str_int_small str_int_0 attempt_failed_def tag_def
          down_composite_def processing_line_def google_line_def arxiv_line_def
          google_request_def)
qed


lemma fetch_hit:
  "cache s query = Some c \<Longrightarrow>
   fetch_external_data w query s =
     (Inr c, s\<lparr>trace := trace s @ [LogEvent (processing_line query), LogEvent hit_line,
                                     StoreData ''external_data'' (StoredComposite c)]\<rparr>)"
  by (simp add: fetch_external_data_def log_event_def store_data_def processing_line_def hit_line_def)

lemma fetch_miss_raise_summary:
  "cache s query = None \<Longrightarrow> summary_fetch w query s = (Inl e, s1) \<Longrightarrow>
   fetch_external_data w query s = (Inl e, s1)"
  by (simp add: fetch_external_data_def summary_fetch_def log_event_def processing_line_def Let_def)

lemma fetch_miss_raise_feed:
  "cache s query = None \<Longrightarrow> summary_fetch w query s = (Inr data, s1) \<Longrightarrow>
   fetch_from_arxiv w query s1 = (Inl e, s2) \<Longrightarrow>
   fetch_external_data w query s = (Inl e, s2)"
  by (simp add: fetch_external_data_def summary_fetch_def log_event_def processing_line_def Let_def)

lemma fetch_miss_return:
  "cache s query = None \<Longrightarrow> summary_fetch w query s = (Inr data, s1) \<Longrightarrow>
   fetch_from_arxiv w query s1 = (Inr research_data, s2) \<Longrightarrow>
   fetch_external_data w query s =
     (Inr (composite_of data research_data),
      s2\<lparr>cache := (cache s2)(query \<mapsto> composite_of data research_data),
         trace := trace s2 @ [LogEvent (found_line research_data),
                              LogEvent (tag @ ''Cached the new result.''),
                              StoreData ''external_data''
                                (StoredComposite (composite_of data research_data))]\<rparr>)"
  by (simp add: fetch_external_data_def summary_fetch_def log_event_def store_data_def
        processing_line_def composite_of_def found_line_def Let_def)

lemma summary_fetch_grows:
  "\<exists>evs. grows s (LogEvent (processing_line query)
                   # LogEvent (if is_space_query query then nasa_line else google_line) # evs)
            (snd (summary_fetch w query s)) \<and> quiet evs"
proof -
  let ?s0 = "log_event (processing_line query) s"
  have g0: "grows s [LogEvent (processing_line query)] ?s0" by (rule grows_log)
  show ?thesis
  proof (cases "is_space_query query")
    case True
    obtain evs where "grows ?s0 (LogEvent nasa_line # evs) (snd (fetch_from_nasa w query ?s0))" "quiet evs"
      using fetch_from_nasa_grows by blast
    with grows_trans[OF g0] True show ?thesis
      by (auto simp: summary_fetch_def Let_def)
  next
    case False
    obtain evs where "grows ?s0 (LogEvent google_line # evs) (snd (fetch_from_google w query ?s0))" "quiet evs"
      using fetch_from_google_grows by blast
    with grows_trans[OF g0] False show ?thesis
      by (auto simp: summary_fetch_def Let_def)
  qed
qed


lemma fetch_cases [case_names hit raise_summary raise_feed return]:
  obtains
    c where "cache s query = Some c"
      and "fetch_external_data w query s =
             (Inr c, s\<lparr>trace := trace s @ [LogEvent (processing_line query), LogEvent hit_line,
                                             StoreData ''external_data'' (StoredComposite c)]\<rparr>)"
  | e s1 evs1 where "cache s query = None"
      and "summary_fetch w query s = (Inl e, s1)"
      and "grows s (LogEvent (processing_line query)
                    # LogEvent (if is_space_query query then nasa_line else google_line) # evs1) s1"
      and "quiet evs1"
      and "fetch_external_data w query s = (Inl e, s1)"
  | data e s1 s2 evs1 evs2 where "cache s query = None"
      and "summary_fetch w query s = (Inr data, s1)"
      and "grows s (LogEvent (processing_line query)
                    # LogEvent (if is_space_query query then nasa_line else google_line) # evs1) s1"
      and "quiet evs1"
      and "fetch_from_arxiv w query s1 = (Inl e, s2)"
      and "grows s1 (LogEvent arxiv_line # evs2) s2"
      and "quiet evs2"
      and "fetch_external_data w query s = (Inl e, s2)"
  | data research_data s1 s2 evs1 evs2 where "cache s query = None"
      and "summary_fetch w query s = (Inr data, s1)"
      and "grows s (LogEvent (processing_line query)
                    # LogEvent (if is_space_query query then nasa_line else google_line) # evs1) s1"
      and "quiet evs1"
      and "fetch_from_arxiv w query s1 = (Inr research_data, s2)"
      and "grows s1 (LogEvent arxiv_line # evs2) s2"
      and "quiet evs2"
      and "fetch_external_data w query s =
             (Inr (composite_of data research_data),
              s2\<lparr>cache := (cache s2)(query \<mapsto> composite_of data research_data),
                 trace := trace s2 @ [LogEvent (found_line research_data),
                                      LogEvent (tag @ ''Cached the new result.''),
                                      StoreData ''external_data''
                                        (StoredComposite (composite_of data research_data))]\<rparr>)"
proof (cases "cache s query")
  case (Some c)
  with fetch_hit[OF Some, of w] that(1) show ?thesis by blast
next
  case None
  obtain r1 s1 where sf: "summary_fetch w query s = (r1, s1)" by (cases "summary_fetch w query s")
  obtain evs1 where g1: "grows s (LogEvent (processing_line query)
                    # LogEvent (if is_space_query query then nasa_line else google_line) # evs1) s1"
      and q1: "quiet evs1"
    using summary_fetch_grows[of s query w] sf by auto
  show ?thesis
  proof (cases r1)
    case (Inl e)
    from fetch_miss_raise_summary[OF None sf[unfolded Inl]] that(2)[OF None sf[unfolded Inl] g1 q1]
    show ?thesis by blast
  next
    case (Inr data)
    obtain r2 s2 where fa: "fetch_from_arxiv w query s1 = (r2, s2)" by (cases "fetch_from_arxiv w query s1")
    obtain evs2 where g2: "grows s1 (LogEvent arxiv_line # evs2) s2" and q2: "quiet evs2"
      using fetch_from_arxiv_grows[of s1 w query] fa by auto
    show ?thesis
    proof (cases r2)
      case (Inl e)
      from fetch_miss_raise_feed[OF None sf[unfolded Inr] fa[unfolded Inl]]
        that(3)[OF None sf[unfolded Inr] g1 q1 fa[unfolded Inl] g2 q2]
      show ?thesis by blast
    next
      case (Inr research_data)
      from fetch_miss_return[OF None sf[unfolded \<open>r1 = Inr data\<close>] fa[unfolded Inr]]
        that(4)[OF None sf[unfolded \<open>r1 = Inr data\<close>] g1 q1 fa[unfolded Inr] g2 q2]
      show ?thesis by blast
    qed
  qed
qed

text \<open>
  Claim C1. When a call of \<open>fetch_external_data\<close> has returned a composite for a query, a
  second call with the same query text returns the same composite, in whatever world it
  runs: its only calls are the two log lines and the \<open>store_data\<close> of the cached composite
  under \<open>external_data\<close>. No HTTP request is made and no adapter is entered; the request
  count and the cache are unchanged.
\<close>

theorem fetch_twice_cached:
  assumes "fetch_external_data w1 query s = (Inr c, s1)"
  shows "fetch_external_data w2 query s1 =
           (Inr c,
            s1\<lparr>trace := trace s1 @ [LogEvent (processing_line query), LogEvent hit_line,
                                     StoreData ''external_data'' (StoredComposite c)]\<rparr>)"
proof -
  have "cache s1 query = Some c"
    using assms by (cases rule: fetch_cases[where s=s and query=query and w=w1]) auto
  then show ?thesis by (rule fetch_hit)
qed

theorem fetch_twice_cached_witness:
  "fetch_external_data feed_world ''best pizza recipe''
     (snd (fetch_external_data down_world ''best pizza recipe'' (init Map.empty None))) =
   (Inr down_composite,
    (snd (fetch_external_data down_world ''best pizza recipe'' (init Map.empty None)))
      \<lparr>trace := trace (snd (fetch_external_data down_world ''best pizza recipe'' (init Map.empty None)))
                 @ [LogEvent (processing_line ''best pizza recipe''), LogEvent hit_line,
                    StoreData ''external_data'' (StoredComposite down_composite)]\<rparr>)
   \<and> fst (fetch_external_data down_world ''best pizza recipe'' (init Map.empty None)) = Inr down_composite"
proof -
  let ?f = "fetch_external_data down_world ''best pizza recipe'' (init Map.empty None)"
  have "?f = (Inr down_composite, snd ?f)" by (simp add: down_world_fetch)
  from fetch_twice_cached[OF this, of feed_world] show ?thesis
    by (simp add: down_world_fetch)
qed

text \<open>
  Claim C8. A call of \<open>fetch_external_data\<close> leaves the cache as it was when it raises or
  hits the cache. On a miss that returns, the cache changes at the query alone, and the
  value written is the composite returned: the text the chosen summary adapter returned
  together with the list the feed adapter returned after it. No partial result is cached.
\<close>

theorem cache_written_once_complete:
  assumes "fetch_external_data w query s = (r, s')"
  shows "case r of
           Inl e \<Rightarrow> cache s' = cache s
         | Inr c \<Rightarrow>
             (case cache s query of
                Some c0 \<Rightarrow> c = c0 \<and> cache s' = cache s
              | None \<Rightarrow>
                  cache s' = (cache s)(query \<mapsto> c)
                  \<and> (\<exists>data s1 research_data s2.
                        summary_fetch w query s = (Inr data, s1)
                        \<and> fetch_from_arxiv w query s1 = (Inr research_data, s2)
                        \<and> c = [(''summary'', PyStr data),
                                (''recent_advancements'', PyList research_data)]))"
proof (cases rule: fetch_cases[where s=s and query=query and w=w])
  case (hit c)
  with assms show ?thesis by auto
next
  case (raise_summary e s1 evs1)
  with assms grows_fields(1)[OF raise_summary(3)] show ?thesis by auto
next
  case (raise_feed data e s1 s2 evs1 evs2)
  with assms grows_fields(1)[OF raise_feed(3)] grows_fields(1)[OF raise_feed(6)]
  show ?thesis by auto
next
  case (return data research_data s1 s2 evs1 evs2)
  with assms grows_fields(1)[OF return(3)] grows_fields(1)[OF return(6)]
  show ?thesis by (auto simp: composite_of_def)
qed

lemma reachable_cache_shape:
  "reachable s \<Longrightarrow> cache s query = Some c \<Longrightarrow> \<exists>text papers. c = composite_of text papers"
proof (induction arbitrary: query c rule: reachable.induct)
  case (start env mr)
  then show ?case by (simp add: init_def)
next
  case (fetch s w q)
  show ?case
  proof (cases rule: fetch_cases[where s=s and query=q and w=w])
    case (hit c0)
    with fetch.prems fetch.IH show ?thesis by auto
  next
    case (raise_summary e s1 evs1)
    with fetch.prems fetch.IH grows_fields(1)[OF raise_summary(3)] show ?thesis by auto
  next
    case (raise_feed data e s1 s2 evs1 evs2)
    with fetch.prems fetch.IH grows_fields(1)[OF raise_feed(3)] grows_fields(1)[OF raise_feed(6)]
    show ?thesis by auto
  next
    case (return data research_data s1 s2 evs1 evs2)
    with fetch.prems fetch.IH grows_fields(1)[OF return(3)] grows_fields(1)[OF return(6)]
    show ?thesis by (auto split: if_splits)
  qed
qed

text \<open>
  Claim C9. In every state an agent can reach, every composite \<open>fetch_external_data\<close>
  returns is a dict of exactly the two keys \<open>summary\<close>, holding a text, and
  \<open>recent_advancements\<close>, holding a list of papers.
\<close>

theorem composite_shape:
  assumes "reachable s" and "fetch_external_data w query s = (Inr c, s')"
  shows "\<exists>text papers. c = [(''summary'', PyStr text), (''recent_advancements'', PyList papers)]"
proof (cases rule: fetch_cases[where s=s and query=query and w=w])
  case (hit c0)
  with assms(2) reachable_cache_shape[OF assms(1), of query c0] show ?thesis
    by (auto simp: composite_of_def)
next
  case (raise_summary e s1 evs1)
  with assms(2) show ?thesis by simp
next
  case (raise_feed data e s1 s2 evs1 evs2)
  with assms(2) show ?thesis by simp
next
  case (return data research_data s1 s2 evs1 evs2)
  with assms(2) show ?thesis by (auto simp: composite_of_def)
qed


lemma is_query_line_simps [simp]:
  "is_query_line (LogEvent google_line)" "is_query_line (LogEvent nasa_line)"
  "is_query_line (LogEvent arxiv_line)"
  by (simp_all add: is_query_line_def)

lemma found_line_quiet [simp]: "\<not> is_query_line (LogEvent (found_line research_data))"
  by (simp add: found_line_def is_query_line_def google_line_def nasa_line_def arxiv_line_def tag_def)

lemma fetch_miss_emitted:
  assumes "cache s query = None"
  shows "\<exists>evs1 rest.
           emitted s (snd (fetch_external_data w query s)) =
             LogEvent (processing_line query)
             # LogEvent (if is_space_query query then nasa_line else google_line) # evs1 @ rest
           \<and> quiet evs1
           \<and> (case fst (summary_fetch w query s) of
                 Inl e \<Rightarrow> rest = []
               | Inr data \<Rightarrow> (\<exists>evs2. rest = LogEvent arxiv_line # evs2 \<and> quiet evs2))"
proof -
  let ?P = "\<lambda>evs1 rest.
           emitted s (snd (fetch_external_data w query s)) =
             LogEvent (processing_line query)
             # LogEvent (if is_space_query query then nasa_line else google_line) # evs1 @ rest
           \<and> quiet evs1
           \<and> (case fst (summary_fetch w query s) of
                 Inl e \<Rightarrow> rest = []
               | Inr data \<Rightarrow> (\<exists>evs2. rest = LogEvent arxiv_line # evs2 \<and> quiet evs2))"
  have "\<exists>evs1 rest. ?P evs1 rest"
  proof (cases rule: fetch_cases[where s=s and query=query and w=w])
    case (hit c)
    with assms show ?thesis by simp
  next
    case (raise_summary e s1 evs1)
    from grows_fields(4)[OF raise_summary(3)] raise_summary(2,4,5) have "?P evs1 []"
      by simp
    then show ?thesis by blast
  next
    case (raise_feed data e s1 s2 evs1 evs2)
    from grows_fields(4)[OF grows_trans[OF raise_feed(3,6)]] raise_feed(2,4,7,8)
    have "?P evs1 (LogEvent arxiv_line # evs2)"
      by simp
    then show ?thesis by blast
  next
    case (return data research_data s1 s2 evs1 evs2)
    let ?tail = "[LogEvent (found_line research_data), LogEvent (tag @ ''Cached the new result.''),
                  StoreData ''external_data'' (StoredComposite (composite_of data research_data))]"
    have "trace s2 = trace s @ (LogEvent (processing_line query)
             # LogEvent (if is_space_query query then nasa_line else google_line) # evs1)
             @ LogEvent arxiv_line # evs2"
      using grows_fields(3)[OF grows_trans[OF return(3,6)]] by simp
    then have "emitted s (snd (fetch_external_data w query s)) =
            LogEvent (processing_line query)
             # LogEvent (if is_space_query query then nasa_line else google_line) # evs1
             @ (LogEvent arxiv_line # evs2 @ ?tail)"
      using return(8) by (simp add: emitted_def)
    with return(2,4,7) have "?P evs1 (LogEvent arxiv_line # evs2 @ ?tail)"
      by simp
    then show ?thesis by blast
  qed
  then show ?thesis .
qed

lemma not_query_line_neq: "\<not> is_query_line e \<Longrightarrow> is_query_line x \<Longrightarrow> e \<noteq> x"
  by auto

subsection \<open>The router, case by case\<close>

lemma letters_length:
  "length ''ABCDEFGHIJKLMNOPQRSTUVWXYZ'' = length ''abcdefghijklmnopqrstuvwxyz''"
  by simp

lemma capitals_distinct: "distinct ''ABCDEFGHIJKLMNOPQRSTUVWXYZ''"
  by simp

lemma lower_char_capital:
  assumes "(c, k) \<in> set (zip ''ABCDEFGHIJKLMNOPQRSTUVWXYZ'' ''abcdefghijklmnopqrstuvwxyz'')"
  shows "lower_char c = k"
proof -
  have "distinct (map fst (zip ''ABCDEFGHIJKLMNOPQRSTUVWXYZ'' ''abcdefghijklmnopqrstuvwxyz''))"
    by (simp only: map_fst_zip[OF letters_length] capitals_distinct)
  from map_of_is_SomeI[OF this assms] show ?thesis
    by (simp only: lower_char_def option.case)
qed

lemma lower_char_other:
  assumes "c \<notin> set ''ABCDEFGHIJKLMNOPQRSTUVWXYZ''"
  shows "lower_char c = c"
proof -
  have "(map_of (zip ''ABCDEFGHIJKLMNOPQRSTUVWXYZ'' ''abcdefghijklmnopqrstuvwxyz'') c = None)
        = (c \<notin> set ''ABCDEFGHIJKLMNOPQRSTUVWXYZ'')"
    by (rule map_of_zip_is_None[OF letters_length])
  with assms
  have "map_of (zip ''ABCDEFGHIJKLMNOPQRSTUVWXYZ'' ''abcdefghijklmnopqrstuvwxyz'') c = None"
    by (rule iffD2[rotated])
  then show ?thesis by (simp only: lower_char_def option.case)
qed

lemma capital_has_small:
  assumes "c \<in> set ''ABCDEFGHIJKLMNOPQRSTUVWXYZ''"
  shows "\<exists>k. (c, k) \<in> set (zip ''ABCDEFGHIJKLMNOPQRSTUVWXYZ'' ''abcdefghijklmnopqrstuvwxyz'')"
  using in_set_impl_in_set_zip1[OF letters_length assms] by blast

lemma lower_char_same_letter:
  assumes "k \<notin> set ''ABCDEFGHIJKLMNOPQRSTUVWXYZ''"
  shows "lower_char c = k \<longleftrightarrow> same_letter c k"
proof
  assume l: "lower_char c = k"
  show "same_letter c k"
  proof (cases "c \<in> set ''ABCDEFGHIJKLMNOPQRSTUVWXYZ''")
    case True
    from capital_has_small[OF True] obtain k' where
      "(c, k') \<in> set (zip ''ABCDEFGHIJKLMNOPQRSTUVWXYZ'' ''abcdefghijklmnopqrstuvwxyz'')" by blast
    with lower_char_capital[OF this] l show ?thesis unfolding same_letter_def by blast
  next
    case False
    from lower_char_other[OF this] l show ?thesis unfolding same_letter_def by simp
  qed
next
  assume "same_letter c k"
  then consider "c = k"
    | "(c, k) \<in> set (zip ''ABCDEFGHIJKLMNOPQRSTUVWXYZ'' ''abcdefghijklmnopqrstuvwxyz'')"
    unfolding same_letter_def by blast
  then show "lower_char c = k"
  proof cases
    case 1
    with assms lower_char_other[of c] show ?thesis by simp
  next
    case 2
    then show ?thesis by (rule lower_char_capital)
  qed
qed

lemma map_lower_same_letter:
  "set k \<inter> set ''ABCDEFGHIJKLMNOPQRSTUVWXYZ'' = {} \<Longrightarrow>
   map lower_char mid = k \<longleftrightarrow> list_all2 same_letter mid k"
proof (induction mid arbitrary: k)
  case Nil
  then show ?case by auto
next
  case (Cons c cs)
  show ?case
  proof (cases k)
    case Nil
    then show ?thesis by simp
  next
    case (Cons x xs)
    with Cons.prems have x: "x \<notin> set ''ABCDEFGHIJKLMNOPQRSTUVWXYZ''"
      and xs: "set xs \<inter> set ''ABCDEFGHIJKLMNOPQRSTUVWXYZ'' = {}"
      by auto
    from Cons.IH[OF xs] lower_char_same_letter[OF x, of c] Cons show ?thesis by simp
  qed
qed

lemma lower_occurs:
  "(\<exists>pre post. lower q = pre @ k @ post)
   \<longleftrightarrow> (\<exists>pre mid post. q = pre @ mid @ post \<and> map lower_char mid = k)"
proof
  assume "\<exists>pre post. lower q = pre @ k @ post"
  then obtain pre post where "map lower_char q = pre @ (k @ post)"
    unfolding lower_def by blast
  then have "\<exists>us vs. q = us @ vs \<and> map lower_char vs = k @ post"
    by (metis map_eq_append_conv)
  then obtain us vs where q: "q = us @ vs" and vs: "map lower_char vs = k @ post"
    by blast
  from vs have "\<exists>ms ps. vs = ms @ ps \<and> map lower_char ms = k"
    by (metis map_eq_append_conv)
  then obtain ms ps where "vs = ms @ ps" "map lower_char ms = k"
    by blast
  with q show "\<exists>pre mid post. q = pre @ mid @ post \<and> map lower_char mid = k" by blast
next
  assume "\<exists>pre mid post. q = pre @ mid @ post \<and> map lower_char mid = k"
  then obtain pre mid post where "q = pre @ mid @ post" "map lower_char mid = k" by blast
  then have "lower q = map lower_char pre @ k @ map lower_char post"
    by (simp add: lower_def)
  then show "\<exists>pre post. lower q = pre @ k @ post" by blast
qed

lemma keyword_occurs:
  assumes "set k \<inter> set ''ABCDEFGHIJKLMNOPQRSTUVWXYZ'' = {}"
  shows "str_in k (lower q)
         \<longleftrightarrow> (\<exists>pre mid post. q = pre @ mid @ post \<and> list_all2 same_letter mid k)"
  unfolding str_in_iff lower_occurs using map_lower_same_letter[OF assms] by simp

lemma is_space_query_ignoring_case:
  "is_space_query query \<longleftrightarrow>
     (\<exists>k \<in> {''nasa'', ''space'', ''astronomy'', ''planet'', ''cosmos'', ''asteroid'', ''galaxy''}.
        \<exists>pre mid post. query = pre @ mid @ post \<and> list_all2 same_letter mid k)"
proof -
  have k: "set k \<inter> set ''ABCDEFGHIJKLMNOPQRSTUVWXYZ'' = {}"
    if "k \<in> set space_keywords" for k
    using that by (auto simp: space_keywords_def)
  have "is_space_query query \<longleftrightarrow>
          (\<exists>k \<in> set space_keywords.
             \<exists>pre mid post. query = pre @ mid @ post \<and> list_all2 same_letter mid k)"
    unfolding is_space_query_def list_ex_iff using keyword_occurs[OF k] by blast
  then show ?thesis by (simp add: space_keywords_def)
qed

lemma lower_nasa: "lower ''NASA Launch Schedule'' = ''nasa launch schedule''"
  by (simp add: lower_def lower_char_def)

text \<open>
  Claim C2. The router takes a query for space-related exactly when its lowercased text
  contains one of the seven keywords as a substring; in terms of the query as typed, when
  some stretch of it spells a keyword, each letter small or capital. On a cache miss exactly
  one summary adapter is entered: the astronomy adapter for a space-related query, the
  web-search adapter otherwise.
\<close>

theorem router_selects_one_summary_adapter:
  assumes "cache s query = None"
  shows "(is_space_query query \<longleftrightarrow>
            (\<exists>k \<in> {''nasa'', ''space'', ''astronomy'', ''planet'', ''cosmos'', ''asteroid'', ''galaxy''}.
               \<exists>pre post. lower query = pre @ k @ post))
       \<and> (is_space_query query \<longleftrightarrow>
            (\<exists>k \<in> {''nasa'', ''space'', ''astronomy'', ''planet'', ''cosmos'', ''asteroid'', ''galaxy''}.
               \<exists>pre mid post. query = pre @ mid @ post \<and> list_all2 same_letter mid k))
       \<and> count_list (emitted s (snd (fetch_external_data w query s))) (LogEvent nasa_line)
           = (if is_space_query query then 1 else 0)
       \<and> count_list (emitted s (snd (fetch_external_data w query s))) (LogEvent google_line)
           = (if is_space_query query then 0 else 1)"
proof (intro conjI)
  show "is_space_query query \<longleftrightarrow>
            (\<exists>k \<in> {''nasa'', ''space'', ''astronomy'', ''planet'', ''cosmos'', ''asteroid'', ''galaxy''}.
               \<exists>pre post. lower query = pre @ k @ post)"
    unfolding is_space_query_def space_keywords_def list_ex_iff str_in_iff by simp
  show "is_space_query query \<longleftrightarrow>
            (\<exists>k \<in> {''nasa'', ''space'', ''astronomy'', ''planet'', ''cosmos'', ''asteroid'', ''galaxy''}.
               \<exists>pre mid post. query = pre @ mid @ post \<and> list_all2 same_letter mid k)"
    by (rule is_space_query_ignoring_case)
  obtain evs1 rest where em: "emitted s (snd (fetch_external_data w query s)) =
             LogEvent (processing_line query)
             # LogEvent (if is_space_query query then nasa_line else google_line) # evs1 @ rest"
    and q1: "quiet evs1"
    and c: "case fst (summary_fetch w query s) of
                 Inl e \<Rightarrow> rest = []
               | Inr data \<Rightarrow> (\<exists>evs2. rest = LogEvent arxiv_line # evs2 \<and> quiet evs2)"
    using fetch_miss_emitted[OF assms, of w] by blast
  have rest: "rest = [] \<or> (\<exists>evs2. rest = LogEvent arxiv_line # evs2 \<and> quiet evs2)"
    using c by (cases "fst (summary_fetch w query s)") simp_all
  have p: "LogEvent (processing_line query) \<noteq> LogEvent nasa_line"
          "LogEvent (processing_line query) \<noteq> LogEvent google_line"
    by (rule not_query_line_neq; simp)+
  have r: "count_list rest (LogEvent nasa_line) = 0" "count_list rest (LogEvent google_line) = 0"
    using rest query_lines_distinct by (auto simp: quiet_count)
  show "count_list (emitted s (snd (fetch_external_data w query s))) (LogEvent nasa_line)
           = (if is_space_query query then 1 else 0)"
    unfolding em using p r q1 query_lines_distinct by (simp add: quiet_count)
  show "count_list (emitted s (snd (fetch_external_data w query s))) (LogEvent google_line)
           = (if is_space_query query then 0 else 1)"
    unfolding em using p r q1 query_lines_distinct by (simp add: quiet_count)
qed

theorem router_selects_one_summary_adapter_witness:
  "count_list (emitted (init Map.empty None)
       (snd (fetch_external_data down_world ''latest asteroid discovery'' (init Map.empty None))))
     (LogEvent nasa_line) = 1
   \<and> count_list (emitted (init Map.empty None)
       (snd (fetch_external_data down_world ''latest asteroid discovery'' (init Map.empty None))))
     (LogEvent google_line) = 0
   \<and> count_list (emitted (init Map.empty None)
       (snd (fetch_external_data down_world ''best pizza recipe'' (init Map.empty None))))
     (LogEvent nasa_line) = 0
   \<and> count_list (emitted (init Map.empty None)
       (snd (fetch_external_data down_world ''best pizza recipe'' (init Map.empty None))))
     (LogEvent google_line) = 1
   \<and> lower ''NASA Launch Schedule'' = ''nasa launch schedule''
   \<and> is_space_query ''NASA Launch Schedule''
   \<and> count_list (emitted (init Map.empty None)
       (snd (fetch_external_data down_world ''NASA Launch Schedule'' (init Map.empty None))))
     (LogEvent nasa_line) = 1
   \<and> count_list (emitted (init Map.empty None)
       (snd (fetch_external_data down_world ''NASA Launch Schedule'' (init Map.empty None))))
     (LogEvent google_line) = 0"
proof -
  have c: "cache (init Map.empty None) q = None" for q by (simp add: init_def)
  note mixed = router_selects_one_summary_adapter[OF c, of "''NASA Launch Schedule''" down_world]
  have split: "''NASA Launch Schedule'' = [] @ ''NASA'' @ '' Launch Schedule''" by simp
  have same: "list_all2 same_letter ''NASA'' ''nasa''"
    by (simp add: same_letter_def)
  have m: "\<exists>k \<in> {''nasa'', ''space'', ''astronomy'', ''planet'', ''cosmos'', ''asteroid'', ''galaxy''}.
       \<exists>pre mid post. ''NASA Launch Schedule'' = pre @ mid @ post \<and> list_all2 same_letter mid k"
  proof (rule bexI[of _ "''nasa''"])
    show "\<exists>pre mid post. ''NASA Launch Schedule'' = pre @ mid @ post
            \<and> list_all2 same_letter mid ''nasa''"
      using split same by blast
    show "''nasa'' \<in> {''nasa'', ''space'', ''astronomy'', ''planet'', ''cosmos'', ''asteroid'', ''galaxy''}"
      by (rule insertI1)
  qed
  have sp: "is_space_query ''NASA Launch Schedule''"
    by (rule mixed[THEN conjunct2, THEN conjunct1, THEN iffD2, OF m])
  note n1 = mixed[THEN conjunct2, THEN conjunct2]
  note n2 = router_selects_one_summary_adapter[OF c, of "''latest asteroid discovery''" down_world,
      THEN conjunct2, THEN conjunct2]
  note n3 = router_selects_one_summary_adapter[OF c, of "''best pizza recipe''" down_world,
      THEN conjunct2, THEN conjunct2]
  show ?thesis
    using n1 n2 n3 sp by (simp add: is_space_asteroid is_space_pizza lower_nasa)
qed

lemma garbled_world_fetch:
  "fetch_external_data garbled_world ''best pizza recipe'' (init Map.empty None) =
     (Inl JSONDecodeError,
      (init Map.empty None)
        \<lparr>trace := [LogEvent (processing_line ''best pizza recipe''),
                   LogEvent google_line,
                   HttpGet (google_request ''best pizza recipe'' (init Map.empty None))],
         requests_made := 1\<rparr>)"
proof -
  have two: "[0 ..< 2] = [0, Suc 0]" by (simp add: upt_conv_Cons del: upt_Suc)
  show ?thesis
    unfolding fetch_external_data_def
    by (simp add: Let_def is_space_pizza init_def log_event_def
          fetch_from_google_def py_range_def two requests_get_def google_ok_def
          garbled_world_def processing_line_def google_line_def google_request_def)
qed

text \<open>
  Claim C7, as stated, fails: when the summary adapter raises (here on a status 200 whose
  body is not JSON) \<open>fetch_external_data\<close> raises too and the feed adapter is never entered.
\<close>

theorem feed_adapter_skipped_counterexample:
  "cache (init Map.empty None) ''best pizza recipe'' = None
   \<and> fst (fetch_external_data garbled_world ''best pizza recipe'' (init Map.empty None))
       = Inl JSONDecodeError
   \<and> count_list (emitted (init Map.empty None)
         (snd (fetch_external_data garbled_world ''best pizza recipe'' (init Map.empty None))))
       (LogEvent arxiv_line) = 0"
  unfolding garbled_world_fetch
  by (simp add: init_def emitted_def processing_line_def google_line_def arxiv_line_def tag_def)

text \<open>
  Claim C7, amended. On a cache miss on which the chosen summary adapter returns (a result
  or its sentinel), the feed adapter is entered exactly once, whichever summary adapter the
  router chose.
\<close>

theorem feed_adapter_invoked_once:
  assumes "cache s query = None" and "fst (summary_fetch w query s) = Inr data"
  shows "count_list (emitted s (snd (fetch_external_data w query s))) (LogEvent arxiv_line) = 1"
proof -
  obtain evs1 evs2 where em: "emitted s (snd (fetch_external_data w query s)) =
             LogEvent (processing_line query)
             # LogEvent (if is_space_query query then nasa_line else google_line) # evs1
             @ LogEvent arxiv_line # evs2"
    and q: "quiet evs1" "quiet evs2"
    using fetch_miss_emitted[OF assms(1), of w] assms(2) by auto
  have p: "LogEvent (processing_line query) \<noteq> LogEvent arxiv_line"
    by (rule not_query_line_neq; simp)
  show ?thesis
    unfolding em using p q query_lines_distinct by (simp add: quiet_count)
qed

lemma down_world_summary:
  "fst (summary_fetch down_world ''best pizza recipe'' (init Map.empty None)) =
     Inr ''Error: Google Search API request failed after 2 attempts.''"
proof -
  have two: "[0 ..< 2] = [0, Suc 0]" by (simp add: upt_conv_Cons del: upt_Suc)
  show ?thesis
    unfolding summary_fetch_def
    by (simp add: Let_def is_space_pizza init_def log_event_def sleep_def
          fetch_from_google_def py_range_def two requests_get_def
          down_world_def google_sentinel_def str_int_small)
qed

theorem feed_adapter_invoked_once_witness:
  "count_list (emitted (init Map.empty None)
       (snd (fetch_external_data down_world ''best pizza recipe'' (init Map.empty None))))
     (LogEvent arxiv_line) = 1"
proof -
  have c: "cache (init Map.empty None) ''best pizza recipe'' = None" by (simp add: init_def)
  show ?thesis
    by (rule feed_adapter_invoked_once[OF c down_world_summary])
qed

theorem cache_written_once_complete_witness:
  "cache (snd (fetch_external_data down_world ''best pizza recipe'' (init Map.empty None)))
     = [''best pizza recipe'' \<mapsto> down_composite]
   \<and> fst (fetch_external_data down_world ''best pizza recipe'' (init Map.empty None))
       = Inr down_composite
   \<and> cache (snd (fetch_external_data garbled_world ''best pizza recipe'' (init Map.empty None)))
       = Map.empty"
proof -
  let ?s = "init Map.empty None"
  let ?f = "fetch_external_data down_world ''best pizza recipe'' ?s"
  let ?g = "fetch_external_data garbled_world ''best pizza recipe'' ?s"
  have f: "?f = (Inr down_composite, snd ?f)" by (simp add: down_world_fetch)
  have g: "?g = (Inl JSONDecodeError, snd ?g)" by (simp add: garbled_world_fetch)
  have c: "cache ?s = Map.empty" by (simp add: init_def)
  show ?thesis
    using cache_written_once_complete[OF f] cache_written_once_complete[OF g]
    by (simp add: c down_world_fetch)
qed

theorem composite_shape_witness:
  "\<exists>text papers.
     down_composite = [(''summary'', PyStr text), (''recent_advancements'', PyList papers)]"
proof -
  let ?s = "init Map.empty None"
  let ?f = "fetch_external_data down_world ''best pizza recipe'' ?s"
  have f: "?f = (Inr down_composite, snd ?f)" by (simp add: down_world_fetch)
  show ?thesis
    by (rule composite_shape[OF reachable.start f])
qed

subsection \<open>The web-search adapter\<close>

lemma google_cases [case_names exhausted raised answered]:
  fixes w query s
  defines "s0 \<equiv> log_event google_line s"
    and "req \<equiv> google_request query s"
    and "n \<equiv> nat (max_retries s)"
  obtains
    "\<forall>i<n. failing w req (requests_made s + i)"
    and "fetch_from_google w query s =
           (Inr (google_sentinel (max_retries s)), after_failures w req ''Google'' 0 n s0)"
  | j e where "j < n" and "\<forall>i<j. failing w req (requests_made s + i)"
    and "http_get w (requests_made s + j) req = Inl e"
    and "fetch_from_google w query s =
           (Inl e, snd (requests_get w req (after_failures w req ''Google'' 0 j s0)))"
  | j r where "j < n" and "\<forall>i<j. failing w req (requests_made s + i)"
    and "http_get w (requests_made s + j) req = Inr r" and "status_code r = 200"
    and "fetch_from_google w query s =
           google_ok w r (snd (requests_get w req (after_failures w req ''Google'' 0 j s0)))"
proof -
  have s0: "requests_made s0 = requests_made s" "max_retries s0 = max_retries s"
    "google_request query s0 = req"
    by (simp_all add: s0_def req_def log_event_def google_request_def)
  have unfold: "fetch_from_google w query s =
      (case google_loop w req [0 ..< n] s0 of
        (Inl e, s1) \<Rightarrow> (Inl e, s1)
      | (Inr (Some results), s1) \<Rightarrow> (Inr results, s1)
      | (Inr None, s1) \<Rightarrow> (Inr (google_sentinel (max_retries s1)), s1))"
    using s0 by (simp add: fetch_from_google_def Let_def py_range_def s0_def[symmetric]
        google_line_def[symmetric] n_def)
  from first_decisive[of n w req "requests_made s"]
  show ?thesis
  proof (elim disjE exE conjE)
    assume all: "\<forall>i<n. failing w req (requests_made s + i)"
    then have "google_loop w req [0 ..< n] s0 = (Inr None, after_failures w req ''Google'' 0 n s0)"
      by (intro google_loop_exhausted) (simp add: s0)
    with that(1)[OF all] show ?thesis by (simp add: unfold s0)
  next
    fix j
    assume j: "j < n" and before: "\<forall>i<j. failing w req (requests_made s + i)"
      and nf: "\<not> failing w req (requests_made s + j)"
    let ?sj = "after_failures w req ''Google'' 0 j s0"
    have skip: "google_loop w req [0 ..< n] s0 = google_loop w req [0 + j ..< n] ?sj"
      using j before by (intro google_loop_skip) (simp_all add: s0)
    have rm: "requests_made ?sj = requests_made s + j" by (simp add: s0)
    show ?thesis
    proof (cases "http_get w (requests_made s + j) req")
      case (Inl e)
      then have "google_loop w req [0 + j ..< n] ?sj = (Inl e, snd (requests_get w req ?sj))"
        using j by (simp add: upt_conv_Cons requests_get_def rm s0 del: upt_Suc)
      with that(2)[OF j before Inl] skip show ?thesis by (simp add: unfold)
    next
      case (Inr r)
      with nf have ok: "status_code r = 200" by (simp add: failing_def)
      have "google_loop w req [0 + j ..< n] ?sj =
              (case google_ok w r (snd (requests_get w req ?sj)) of
                 (Inl e, s2) \<Rightarrow> (Inl e, s2)
               | (Inr results, s2) \<Rightarrow> (Inr (Some results), s2))"
        using j Inr ok by (simp add: upt_conv_Cons requests_get_def rm s0 del: upt_Suc)
      then have "fetch_from_google w query s = google_ok w r (snd (requests_get w req ?sj))"
        using skip by (simp add: unfold split: prod.splits sum.splits)
      with that(3)[OF j before Inr ok] show ?thesis by simp
    qed
  qed
qed


lemma map_exn_objects:
  "list_all is_object xs \<Longrightarrow>
   map_exn (\<lambda>res. py_get res ''link'') xs = Inr (map link_of xs)"
  by (induction xs) (auto simp: is_object_def link_of_def py_get_def split: json.splits)

lemma google_block_object: "is_object res \<Longrightarrow> \<exists>b. google_block w res = Inr b"
  by (auto simp: is_object_def google_block_def py_get_def split: json.splits)

lemma map_exn_blocks:
  "list_all is_object xs \<Longrightarrow> \<exists>bs. map_exn (google_block w) xs = Inr bs"
proof (induction xs)
  case Nil
  then show ?case by simp
next
  case (Cons x xs)
  then obtain b bs where "google_block w x = Inr b" "map_exn (google_block w) xs = Inr bs"
    using google_block_object[of x w] by auto
  then show ?case by simp
qed

lemma items_key_member: "map_of kvs k = Some v \<Longrightarrow> k \<in> fst ` set kvs"
  by (metis map_of_eq_None_iff option.distinct(1))

lemma google_ok_has_items:
  assumes "has_items r xs"
  shows "\<exists>text. google_ok w r s =
           (Inr text, store_data ''external_urls'' (StoredUrls (map link_of xs)) s)"
proof -
  from assms obtain kvs where b: "json_body r = Some (JObj kvs)"
    and i: "map_of kvs ''items'' = Some (JArr xs)" and o: "list_all is_object xs"
    unfolding has_items_def by blast
  from map_exn_blocks[OF o, of w] obtain bs where bs: "map_exn (google_block w) xs = Inr bs" by blast
  show ?thesis
    unfolding google_ok_def
    by (simp add: b i items_key_member[OF i] map_exn_objects[OF o] bs Let_def)
qed

lemma google_ok_no_key:
  assumes "\<not> has_items_key r"
  shows "snd (google_ok w r s) = s"
proof (cases "json_body r")
  case None
  then show ?thesis by (simp add: google_ok_def)
next
  case (Some body)
  show ?thesis
  proof (cases body)
    case (JObj kvs)
    with Some assms have "map_of kvs ''items'' = None"
      by (cases "map_of kvs ''items''") (auto simp: has_items_key_def)
    then have "''items'' \<notin> fst ` set kvs" by (simp add: map_of_eq_None_iff)
    with Some JObj show ?thesis by (simp add: google_ok_def)
  qed (use Some in \<open>auto simp: google_ok_def split: bool.splits\<close>)
qed

lemma google_ok_well_formed:
  assumes "well_formed_search r"
  shows "\<exists>text. fst (google_ok w r s) = Inr text"
proof -
  from assms obtain kvs where b: "json_body r = Some (JObj kvs)"
    by (auto simp: well_formed_search_def split: option.splits json.splits)
  show ?thesis
  proof (cases "map_of kvs ''items''")
    case None
    then have "''items'' \<notin> fst ` set kvs" by (simp add: map_of_eq_None_iff)
    with b show ?thesis by (simp add: google_ok_def)
  next
    case (Some v)
    with assms b obtain xs where "v = JArr xs" "list_all is_object xs"
      by (auto simp: well_formed_search_def split: json.splits)
    with b Some have "has_items r xs" by (auto simp: has_items_def)
    from google_ok_has_items[OF this, of w s] show ?thesis by auto
  qed
qed

lemma url_writes_append [simp]: "url_writes (xs @ ys) = url_writes xs @ url_writes ys"
  by (induction xs rule: url_writes.induct) auto

lemma url_writes_failed [simp]: "url_writes (failed_attempts w req api k a n) = []"
  by (induction n) (simp_all add: failed_attempts_snoc)

lemma first_ok_unique:
  assumes "\<forall>i<j. failing w req (k + i)" and "\<not> failing w req (k + j)" and "first_ok w req k n r"
  shows "http_get w (k + j) req = Inr r"
proof -
  from assms(3) obtain j' where j': "\<forall>i<j'. failing w req (k + i)"
    "http_get w (k + j') req = Inr r" "status_code r = 200"
    unfolding first_ok_def by blast
  then have nf: "\<not> failing w req (k + j')" by (simp add: failing_def)
  have "\<not> j' < j" using assms(1) nf by blast
  moreover have "\<not> j < j'" using j'(1) assms(2) by blast
  ultimately have "j' = j" by simp
  with j'(2) show ?thesis by simp
qed

text \<open>
  Claim C5, as stated, fails: a status 200 whose body is not JSON makes \<open>response.json()\<close>
  raise, no handler catches it, and the exception leaves the adapter.
\<close>

theorem web_search_raises_counterexample:
  "fst (fetch_from_google garbled_world ''best pizza recipe'' (init Map.empty None))
     = Inl JSONDecodeError"
proof -
  have two: "[0 ..< 2] = [0, Suc 0]" by (simp add: upt_conv_Cons del: upt_Suc)
  show ?thesis
    by (simp add: Let_def init_def log_event_def fetch_from_google_def py_range_def two
          requests_get_def google_ok_def garbled_world_def)
qed

text \<open>
  Claim C5, amended. The web-search adapter returns a text and raises nothing whenever
  each of its requests is answered and every answer with status 200 carries a JSON object
  whose \<open>items\<close> entry, if there is one, is an array of objects. Answers with another status
  are retried and end in the sentinel text.
\<close>

theorem web_search_returns_text:
  assumes "\<forall>i < nat (max_retries s).
             answered_well w (google_request query s) (requests_made s + i)"
  shows "\<exists>text. fst (fetch_from_google w query s) = Inr text"
proof (cases rule: google_cases[where w=w and query=query and s=s])
  case exhausted
  then show ?thesis by simp
next
  case (raised j e)
  with assms show ?thesis by (auto simp: answered_well_def)
next
  case (answered j r)
  with assms have "well_formed_search r" by (auto simp: answered_well_def)
  from google_ok_well_formed[OF this] answered(5) show ?thesis by simp
qed

theorem web_search_returns_text_witness:
  "(\<exists>text. fst (fetch_from_google (items_world two_items) ''best pizza recipe''
                 (init Map.empty None)) = Inr text)
   \<and> fst (fetch_from_google (items_world two_items) ''best pizza recipe'' (init Map.empty None)) =
     Inr (''Title: A'' @ [nl] @ ''Link: http://a.example'' @ [nl] @ ''Snippet: first'' @ [nl] @ [nl]
          @ ''Title: B'' @ [nl] @ ''Link: None'' @ [nl] @ ''Snippet: None'' @ [nl])"
proof
  let ?s = "init Map.empty None"
  have mr: "nat (max_retries ?s) = 2" by (simp add: init_def)
  have two: "[0 ..< 2] = [0, Suc 0]" by (simp add: upt_conv_Cons del: upt_Suc)
  have a: "\<forall>i < nat (max_retries ?s).
             answered_well (items_world two_items) (google_request ''best pizza recipe'' ?s)
               (requests_made ?s + i)"
    unfolding mr
    by (simp add: answered_well_def items_world_def well_formed_search_def two_items_def
          is_object_def)
  show "\<exists>text. fst (fetch_from_google (items_world two_items) ''best pizza recipe'' ?s) = Inr text"
    by (rule web_search_returns_text[OF a])
  show "fst (fetch_from_google (items_world two_items) ''best pizza recipe'' ?s) =
     Inr (''Title: A'' @ [nl] @ ''Link: http://a.example'' @ [nl] @ ''Snippet: first'' @ [nl] @ [nl]
          @ ''Title: B'' @ [nl] @ ''Link: None'' @ [nl] @ ''Snippet: None'' @ [nl])"
    by (simp add: Let_def init_def log_event_def sleep_def store_data_def fetch_from_google_def
          py_range_def two requests_get_def google_ok_def items_world_def two_items_def
          google_block_def py_get_def)
qed


lemma emitted_append: "trace s' = trace s @ evs \<Longrightarrow> emitted s s' = evs"
  by (simp add: emitted_def)

lemma first_okI:
  "j < n \<Longrightarrow> \<forall>i<j. failing w req (k + i) \<Longrightarrow> http_get w (k + j) req = Inr r \<Longrightarrow>
   status_code r = 200 \<Longrightarrow> first_ok w req k n r"
  unfolding first_ok_def by blast

text \<open>
  Claim C10, as stated, fails: on a status 200 whose \<open>items\<close> array is empty the adapter
  writes the empty list under \<open>external_urls\<close> (line 58 tests the presence of the key).
\<close>

theorem external_urls_empty_items_counterexample:
  "fetch_from_google (items_world (JObj [(''items'', JArr [])])) ''best pizza recipe''
     (init Map.empty None)
   = (Inr [],
      (init Map.empty None)
        \<lparr>trace := [LogEvent google_line,
                   HttpGet (google_request ''best pizza recipe'' (init Map.empty None)),
                   LogEvent ''[APISelectionAgent] Google API attempt 1 failed with status 500'',
                   Sleep 1,
                   HttpGet (google_request ''best pizza recipe'' (init Map.empty None)),
                   StoreData ''external_urls'' (StoredUrls [])],
         requests_made := 2\<rparr>)"
proof -
  have two: "[0 ..< 2] = [0, Suc 0]" by (simp add: upt_conv_Cons del: upt_Suc)
  have "str_int 500 = ''500''" by (simp add: str_int_def str_nat.simps digit_char_def)
  then show ?thesis
    by (simp add: Let_def init_def log_event_def sleep_def store_data_def fetch_from_google_def
          py_range_def two requests_get_def google_ok_def items_world_def google_line_def
          attempt_failed_def tag_def google_request_def str_int_small)
qed

text \<open>
  Claim C10, amended. When the first successful attempt (status 200, the attempts before it
  failed) answers with a JSON object whose \<open>items\<close> entry is an array of objects, empty or
  not, the web-search adapter writes \<open>external_urls\<close> exactly once, and the value is the list
  of the \<open>link\<close> fields of the items in order. When no attempt succeeds with an \<open>items\<close>
  entry (a success without the key, exhausted retries, an exception) nothing is written
  under \<open>external_urls\<close>.
\<close>

theorem external_urls_written:
  "(\<forall>r xs. first_ok w (google_request query s) (requests_made s) (nat (max_retries s)) r
            \<and> has_items r xs \<longrightarrow>
            url_writes (emitted s (snd (fetch_from_google w query s)))
              = [StoredUrls (map link_of xs)])
   \<and> ((\<nexists>r. first_ok w (google_request query s) (requests_made s) (nat (max_retries s)) r
            \<and> has_items_key r) \<longrightarrow>
        url_writes (emitted s (snd (fetch_from_google w query s))) = [])"
proof (cases rule: google_cases[where w=w and query=query and s=s])
  case exhausted
  let ?req = "google_request query s"
  have no: "\<not> first_ok w ?req (requests_made s) (nat (max_retries s)) r" for r
    using exhausted(1) by (auto simp: first_ok_def failing_def)
  have "emitted s (snd (fetch_from_google w query s)) =
          LogEvent google_line # failed_attempts w ?req ''Google'' (requests_made s) 0 (nat (max_retries s))"
    unfolding exhausted(2) by (rule emitted_append) (simp add: log_event_def)
  then show ?thesis using no by simp
next
  case (raised j e)
  let ?req = "google_request query s"
  have nf: "\<not> failing w ?req (requests_made s + j)"
    using raised(3) by (simp add: failing_def)
  have no: "\<not> first_ok w ?req (requests_made s) (nat (max_retries s)) r" for r
    using first_ok_unique[OF raised(2) nf] raised(3) by auto
  have "emitted s (snd (fetch_from_google w query s)) =
          LogEvent google_line # failed_attempts w ?req ''Google'' (requests_made s) 0 j @ [HttpGet ?req]"
    unfolding raised(4) by (rule emitted_append) (simp add: log_event_def requests_get_def)
  then show ?thesis using no by simp
next
  case (answered j r0)
  let ?req = "google_request query s"
  let ?sj = "snd (requests_get w ?req (after_failures w ?req ''Google'' 0 j (log_event google_line s)))"
  have nf: "\<not> failing w ?req (requests_made s + j)"
    using answered(3,4) by (simp add: failing_def)
  have ok: "first_ok w ?req (requests_made s) (nat (max_retries s)) r0"
    using answered(1-4) by (rule first_okI)
  have uniq: "r = r0" if "first_ok w ?req (requests_made s) (nat (max_retries s)) r" for r
    using first_ok_unique[OF answered(2) nf that] answered(3) by simp
  have tr: "trace ?sj = trace s @ LogEvent google_line
              # failed_attempts w ?req ''Google'' (requests_made s) 0 j @ [HttpGet ?req]"
    by (simp add: log_event_def requests_get_def)
  show ?thesis
  proof (intro conjI allI impI)
    fix r xs
    assume "first_ok w ?req (requests_made s) (nat (max_retries s)) r \<and> has_items r xs"
    then have "has_items r0 xs" using uniq by auto
    from google_ok_has_items[OF this, of w ?sj]
    have "snd (fetch_from_google w query s) =
            store_data ''external_urls'' (StoredUrls (map link_of xs)) ?sj"
      unfolding answered(5) by auto
    then have "emitted s (snd (fetch_from_google w query s)) =
          (LogEvent google_line # failed_attempts w ?req ''Google'' (requests_made s) 0 j
            @ [HttpGet ?req]) @ [StoreData ''external_urls'' (StoredUrls (map link_of xs))]"
      by (intro emitted_append) (simp add: store_data_def tr)
    then show "url_writes (emitted s (snd (fetch_from_google w query s)))
                 = [StoredUrls (map link_of xs)]"
      by simp
  next
    assume "\<nexists>r. first_ok w ?req (requests_made s) (nat (max_retries s)) r \<and> has_items_key r"
    with ok have "\<not> has_items_key r0" by blast
    from google_ok_no_key[OF this, of w ?sj]
    have "snd (fetch_from_google w query s) = ?sj"
      unfolding answered(5) by simp
    then have "emitted s (snd (fetch_from_google w query s)) =
          LogEvent google_line # failed_attempts w ?req ''Google'' (requests_made s) 0 j
            @ [HttpGet ?req]"
      by (intro emitted_append) (simp add: tr)
    then show "url_writes (emitted s (snd (fetch_from_google w query s))) = []"
      by simp
  qed
qed

theorem external_urls_written_witness:
  "url_writes (emitted (init Map.empty None)
       (snd (fetch_from_google (items_world two_items) ''best pizza recipe'' (init Map.empty None))))
     = [StoredUrls [JStr ''http://a.example'', JNull]]
   \<and> url_writes (emitted (init Map.empty None)
       (snd (fetch_from_google down_world ''best pizza recipe'' (init Map.empty None))))
     = []"
proof
  let ?s = "init Map.empty None"
  let ?req = "google_request ''best pizza recipe'' ?s"
  let ?r = "\<lparr> status_code = 200, json_body = Some two_items, feed_entries = [] \<rparr>"
  let ?xs = "[JObj [(''title'', JStr ''A''), (''link'', JStr ''http://a.example''),
                    (''snippet'', JStr ''first'')],
              JObj [(''title'', JStr ''B'')]]"
  have mr: "nat (max_retries ?s) = 2" "requests_made ?s = 0" by (simp_all add: init_def)
  have ok: "first_ok (items_world two_items) ?req (requests_made ?s) (nat (max_retries ?s)) ?r"
    unfolding mr
    by (rule first_okI[of 1]) (simp_all add: items_world_def failing_def)
  have it: "has_items ?r ?xs"
    by (simp add: has_items_def two_items_def is_object_def)
  from external_urls_written[of "items_world two_items" "''best pizza recipe''" ?s,
      THEN conjunct1, rule_format, OF conjI[OF ok it]]
  show "url_writes (emitted ?s (snd (fetch_from_google (items_world two_items)
           ''best pizza recipe'' ?s))) = [StoredUrls [JStr ''http://a.example'', JNull]]"
    by (simp add: link_of_def)
  have no: "\<nexists>r. first_ok down_world ?req (requests_made ?s) (nat (max_retries ?s)) r
              \<and> has_items_key r"
    by (auto simp: first_ok_def down_world_def)
  from external_urls_written[of down_world "''best pizza recipe''" ?s,
      THEN conjunct2, THEN mp, OF no]
  show "url_writes (emitted ?s (snd (fetch_from_google down_world ''best pizza recipe'' ?s))) = []" .
qed

end
